theory Spec2Isabelle
  imports Main "HOL-Library.Multiset" "HOL-Library.Char_ord" "HOL-Library.List_Lexorder"
    "HOL-Library.Product_Lexorder"
begin

section \<open>The pattern matchers of zxcvbn-cpp (native-src/zxcvbn/matching.cpp)\<close>

text \<open>
  A password is a \<open>std::string\<close>: a list of bytes. Indices (\<open>idx_t\<close>, \<open>size_t\<close>) are
  natural numbers; \<open>date_t\<close> is \<open>unsigned\<close> and only ever holds the value of at most
  four decimal digits plus 2000, so it is a natural number as well. A call that aborts
  (a failed \<open>assert\<close>) or throws (\<open>std::stoul\<close> on a string it cannot convert) has the
  value \<open>None\<close>.
\<close>

subsection \<open>Strings\<close>

definition substr :: "string \<Rightarrow> nat \<Rightarrow> nat \<Rightarrow> string" where
  \<comment> \<open>\<open>s.substr(pos, n)\<close> for \<open>pos \<le> s.length()\<close>, which holds at every call of the source\<close>
  "substr s pos n = take n (drop pos s)"

definition is_digit :: "char \<Rightarrow> bool" where
  \<comment> \<open>the class \<open>\d\<close>\<close>
  "is_digit c = (CHR ''0'' \<le> c \<and> c \<le> CHR ''9'')"

definition digit_val :: "char \<Rightarrow> nat" where
  "digit_val c = of_char c - of_char (CHR ''0'')"

definition stou :: "string \<Rightarrow> nat option" where
  \<comment> \<open>\<open>std::stoul\<close> on a non-empty string of decimal digits; on any other string the
      source would throw or convert a prefix only, which is \<open>None\<close> here\<close>
  "stou a = (if a \<noteq> [] \<and> list_all is_digit a
             then Some (foldl (\<lambda>n c. 10 * n + digit_val c) 0 a) else None)"

subsection \<open>Matches\<close>

datatype DictionaryTag = USER_INPUTS | BUILT_IN string
datatype GraphTag = QWERTY | DVORAK | OTHER_GRAPH string
datatype RegexTag = RECENT_YEAR
datatype SequenceTag = LOWER | UPPER | DIGITS | UNICODE

record DictionaryMatch =
  dictionary_tag :: DictionaryTag
  matched_word :: string
  rank :: nat
  reversed :: bool
  l33t :: bool
  sub :: "(string \<times> string) list"
  sub_display :: string

text \<open>
  A \<open>Match\<close> holds \<open>i\<close>, \<open>j\<close>, \<open>token\<close> and the payload of its pattern. The type \<open>'g\<close> is
  the scoring engine's guess count (a \<open>double\<close> the matchers only store).
\<close>

datatype 'g Match =
  Match (match_i: nat) (match_j: nat) (match_token: string) (match_pattern: "'g MatchPattern")
and 'g MatchPattern =
    DictionaryP DictionaryMatch
  | SpatialMatch GraphTag nat nat
  | RepeatMatch string 'g "'g Match list" nat
  | SequenceMatch SequenceTag nat bool
  | RegexMatch RegexTag "string list"
  | DateMatch string nat nat nat bool

subsection \<open>The environment: what matching.cpp takes from the other files\<close>

text \<open>
  \<open>default_ranked_dicts()\<close>, \<open>build_ranked_dict\<close>, \<open>graphs()\<close>, \<open>REFERENCE_YEAR\<close> and
  \<open>most_guessable_match_sequence\<close> are declared in headers that are not part of the
  source file; they are parameters. A ranked dictionary and a graph are
  \<open>std::unordered_map\<close>s, looked up with \<open>map_of\<close>; the list order stands for the
  iteration order, which C++ leaves open. \<open>std_sort\<close> is \<open>std::sort\<close> with the comparison
  of \<open>sorted\<close>: the standard fixes its result up to the order of equivalent elements, so
  it is a parameter with the contract \<open>sort_contract\<close>.

  \<open>regex_search_fails\<close> is the regex library: the subject strings on which it does not
  return from \<open>std::regex_search\<close> with one of the three expressions of \<open>repeat_match\<close>
  (it throws \<open>std::regex_error\<close>, which the standard allows, or its executor runs out of
  stack). These are the searches the source runs on a subject of unbounded length with
  an expression that loops; the source neither bounds the subject nor catches anything.
\<close>

datatype repeat_regex = GREEDY | LAZY | LAZY_ANCHORED

type_synonym RankedDict = "(string \<times> nat) list"
type_synonym RankedDicts = "(DictionaryTag \<times> RankedDict) list"
type_synonym Graph = "(string \<times> string option list) list"
type_synonym Graphs = "(GraphTag \<times> Graph) list"

record 'g env =
  default_ranked_dicts :: RankedDicts
  build_ranked_dict :: "string list \<Rightarrow> RankedDict"
  graphs :: Graphs
  REFERENCE_YEAR :: nat
  most_guessable_match_sequence :: "string \<Rightarrow> 'g Match list \<Rightarrow> bool \<Rightarrow> 'g \<times> 'g Match list"
  std_sort :: "'g Match list \<Rightarrow> 'g Match list"
  regex_search_fails :: "repeat_regex \<Rightarrow> string \<Rightarrow> bool"

definition match_less :: "'g Match \<Rightarrow> 'g Match \<Rightarrow> bool" where
  \<comment> \<open>the comparison of \<open>sorted\<close>: \<open>make_pair(m1.i, m1.j) < make_pair(m2.i, m2.j)\<close>\<close>
  "match_less m1 m2 =
     (match_i m1 < match_i m2 \<or> (\<not> match_i m2 < match_i m1 \<and> match_j m1 < match_j m2))"

definition sort_contract :: "('g Match list \<Rightarrow> 'g Match list) \<Rightarrow> bool" where
  \<comment> \<open>what the standard promises of \<open>std::sort\<close>: a permutation, no element before a
      smaller one\<close>
  "sort_contract srt =
     (\<forall>ms. mset (srt ms) = mset ms \<and> sorted_wrt (\<lambda>a b. \<not> match_less b a) (srt ms))"

definition sorted_matches :: "'g env \<Rightarrow> 'g Match list \<Rightarrow> 'g Match list" where
  \<comment> \<open>\<open>sorted\<close>\<close>
  "sorted_matches e matches = std_sort e matches"

subsection \<open>Date matching\<close>

definition DATE_MAX_YEAR :: nat where
  "DATE_MAX_YEAR = 2050"

definition DATE_MIN_YEAR :: nat where
  "DATE_MIN_YEAR = 1000"

definition DATE_SPLITS :: "(nat \<times> nat) list list" where
  "DATE_SPLITS =
    [[(1, 2), (2, 3)],
     [(1, 3), (2, 3)],
     [(1, 2), (2, 4), (4, 5)],
     [(1, 3), (2, 3), (4, 5), (4, 6)],
     [(2, 4), (4, 6)]]"

record DMY =
  year :: nat
  month :: nat
  day :: nat

definition two_to_four_digit_year :: "nat \<Rightarrow> nat" where
  "two_to_four_digit_year y =
     (if y > 99 then y else if y > 50 then y + 1900 else y + 2000)"

definition map_ints_to_dm :: "nat \<times> nat \<Rightarrow> DMY option" where
  \<comment> \<open>the loop over \<open>{vals, {vals[1], vals[0]}}\<close> returns at the first pair that fits\<close>
  "map_ints_to_dm vals =
     (case List.find (\<lambda>(d, m). 1 \<le> d \<and> d \<le> 31 \<and> 1 \<le> m \<and> m \<le> 12)
             [vals, (snd vals, fst vals)] of
        Some (d, m) \<Rightarrow> Some \<lparr>year = 0, month = m, day = d\<rparr>
      | None \<Rightarrow> None)"

definition map_ints_to_dmy :: "nat \<times> nat \<times> nat \<Rightarrow> DMY option" where
  \<comment> \<open>the first loop returns at the first integer out of range, before the counters are
      read; each of the two loops over \<open>possible_year_splits\<close> returns at the first split
      that passes its test\<close>
  "map_ints_to_dmy vals =
     (case vals of (v0, v1, v2) \<Rightarrow>
        if v1 > 31 \<or> v1 = 0 then None
        else if list_ex (\<lambda>val. (99 < val \<and> val < DATE_MIN_YEAR) \<or> val > DATE_MAX_YEAR)
                  [v0, v1, v2] then None
        else
          let over_31 = length (filter (\<lambda>val. val > 31) [v0, v1, v2]);
              over_12 = length (filter (\<lambda>val. val > 12) [v0, v1, v2]);
              under_1 = length (filter (\<lambda>val. val \<le> 0) [v0, v1, v2])
          in if over_31 \<ge> 2 \<or> over_12 = 3 \<or> under_1 \<ge> 2 then None
             else
               let possible_year_splits = [(v2, (v0, v1)), (v0, (v1, v2))]
               in case List.find (\<lambda>(y, rest). DATE_MIN_YEAR \<le> y \<and> y \<le> DATE_MAX_YEAR)
                         possible_year_splits of
                    Some (y, rest) \<Rightarrow>
                      (case map_ints_to_dm rest of
                         Some dm \<Rightarrow> Some \<lparr>year = y, month = month dm, day = day dm\<rparr>
                       | None \<Rightarrow> None)
                  | None \<Rightarrow>
                      (case List.find (\<lambda>(y, rest). map_ints_to_dm rest \<noteq> None)
                              possible_year_splits of
                         Some (y, rest) \<Rightarrow>
                           (case map_ints_to_dm rest of
                              Some dm \<Rightarrow>
                                Some \<lparr>year = two_to_four_digit_year y,
                                      month = month dm, day = day dm\<rparr>
                            | None \<Rightarrow> None)
                       | None \<Rightarrow> None))"

definition maybe_date_no_separator :: "string \<Rightarrow> bool" where
  \<comment> \<open>\<open>regex_search\<close> with \<open>^\d{4,8}$\<close>\<close>
  "maybe_date_no_separator t = (4 \<le> length t \<and> length t \<le> 8 \<and> list_all is_digit t)"

definition is_separator :: "char \<Rightarrow> bool" where
  \<comment> \<open>the class \<open>[\s/\\_.-]\<close>; \<open>\s\<close> is the white space of the C locale\<close>
  "is_separator c =
     (c \<in> set [CHR 0x20, CHR 0x09, CHR 0x0A, CHR 0x0B, CHR 0x0C, CHR 0x0D,
                CHR ''/'', CHR 0x5C, CHR ''_'', CHR ''.'', CHR ''-''])"

definition maybe_date_with_separator :: "string \<Rightarrow> (string \<times> string \<times> string \<times> string) option" where
  \<comment> \<open>\<open>regex_match\<close> with \<open>^(\d{1,4})([\s/\\_.-])(\d{1,2})\2(\d{1,4})$\<close>: the groups
      1 to 4. Digits and separators are disjoint, so the groups are the maximal runs of
      digits.\<close>
  "maybe_date_with_separator t =
     (let g1 = takeWhile is_digit t; r1 = dropWhile is_digit t
      in case r1 of
           [] \<Rightarrow> None
         | s # r2 \<Rightarrow>
             (let g3 = takeWhile is_digit r2; r3 = dropWhile is_digit r2
              in case r3 of
                   [] \<Rightarrow> None
                 | s' # g4 \<Rightarrow>
                     if 1 \<le> length g1 \<and> length g1 \<le> 4 \<and> is_separator s
                        \<and> 1 \<le> length g3 \<and> length g3 \<le> 2 \<and> s' = s
                        \<and> 1 \<le> length g4 \<and> length g4 \<le> 4 \<and> list_all is_digit g4
                     then Some (g1, [s], g3, g4) else None))"

definition metric :: "nat \<Rightarrow> DMY \<Rightarrow> nat" where
  \<comment> \<open>the lambda \<open>metric\<close>, for the reference year \<open>r\<close>\<close>
  "metric r candidate =
     (if year candidate \<ge> r then year candidate - r else r - year candidate)"

definition min_element :: "('a \<Rightarrow> 'a \<Rightarrow> bool) \<Rightarrow> 'a list \<Rightarrow> 'a option" where
  \<comment> \<open>\<open>std::min_element\<close>: the first of the smallest elements; \<open>None\<close> is \<open>last\<close>\<close>
  "min_element lt xs =
     (case xs of
        [] \<Rightarrow> None
      | x # rest \<Rightarrow> Some (foldl (\<lambda>smallest c. if lt c smallest then c else smallest) x rest))"

definition split_dmy :: "string \<Rightarrow> nat \<times> nat \<Rightarrow> DMY option option" where
  \<comment> \<open>one entry \<open>(k, l)\<close> of \<open>DATE_SPLITS\<close> applied to \<open>token\<close>; the outer \<open>None\<close> is a throw
      of \<open>stou\<close>\<close>
  "split_dmy token item =
     (case item of (k, l) \<Rightarrow>
        (case (stou (substr token 0 k), stou (substr token k (l - k)), stou (drop l token)) of
           (Some a, Some b, Some c) \<Rightarrow> Some (map_ints_to_dmy (a, b, c))
         | _ \<Rightarrow> None))"

definition date_candidates :: "string \<Rightarrow> DMY list option" where
  \<comment> \<open>the vector \<open>candidates\<close> of a token that passed \<open>maybe_date_no_separator\<close>\<close>
  "date_candidates token =
     map_option (\<lambda>ds. concat (map (\<lambda>d. case d of Some c \<Rightarrow> [c] | None \<Rightarrow> []) ds))
       (those (map (split_dmy token) (DATE_SPLITS ! (length token - 4))))"

definition best_candidate :: "nat \<Rightarrow> DMY list \<Rightarrow> DMY option" where
  "best_candidate r candidates = min_element (\<lambda>a b. metric r a < metric r b) candidates"

definition date_no_separator_at :: "'g env \<Rightarrow> string \<Rightarrow> nat \<times> nat \<Rightarrow> 'g Match list option" where
  \<comment> \<open>the body of the first pair of loops at \<open>(i, j)\<close>: the matches pushed\<close>
  "date_no_separator_at e password ij =
     (case ij of (i, j) \<Rightarrow>
        let token = substr password i (j - i + 1)
        in if \<not> maybe_date_no_separator token then Some []
           else (case date_candidates token of
                   None \<Rightarrow> None
                 | Some candidates \<Rightarrow>
                     (case best_candidate (REFERENCE_YEAR e) candidates of
                        None \<Rightarrow> Some []
                      | Some b \<Rightarrow>
                          Some [Match i j token (DateMatch [] (year b) (month b) (day b) False)])))"

definition date_with_separator_at :: "string \<Rightarrow> nat \<times> nat \<Rightarrow> 'g Match list option" where
  \<comment> \<open>the body of the second pair of loops at \<open>(i, j)\<close>\<close>
  "date_with_separator_at password ij =
     (case ij of (i, j) \<Rightarrow>
        let token = substr password i (j - i + 1)
        in case maybe_date_with_separator token of
             None \<Rightarrow> Some []
           | Some (g1, g2, g3, g4) \<Rightarrow>
               (case (stou g1, stou g3, stou g4) of
                  (Some a, Some b, Some c) \<Rightarrow>
                    (case map_ints_to_dmy (a, b, c) of
                       None \<Rightarrow> Some []
                     | Some dmy \<Rightarrow>
                         Some [Match i j token (DateMatch g2 (year dmy) (month dmy) (day dmy) False)])
                | _ \<Rightarrow> None))"

definition date_spans :: "nat \<Rightarrow> nat \<Rightarrow> nat \<Rightarrow> (nat \<times> nat) list" where
  \<comment> \<open>the pairs \<open>(i, j)\<close> the loops
      \<open>for (i = 0; i + lo <= n; ++i) for (j = i + lo - 1; j <= i + hi - 1; ++j) { if (j >= n) break; ... }\<close>
      visit, in their order\<close>
  "date_spans n lo hi =
     concat (map (\<lambda>i. map (\<lambda>j. (i, j)) (filter (\<lambda>j. j < n) [i + lo - 1..<i + hi]))
                 (filter (\<lambda>i. i + lo \<le> n) [0..<n]))"

definition collect :: "'a list option list \<Rightarrow> 'a list option" where
  \<comment> \<open>the pushes of a loop, one after the other; a throw in an iteration ends the call\<close>
  "collect rs = map_option concat (those rs)"

text \<open>
  \<open>matches.erase(std::remove_if(matches.begin(), matches.end(), pred), matches.end())\<close>,
  where \<open>pred\<close> reads \<open>matches\<close> itself while \<open>remove_if\<close> compacts it in place.
  \<open>remove_if_loop\<close> is the loop of \<open>remove_if\<close>: \<open>k\<close> is the element read, \<open>r\<close> the place
  the next kept element moves to; a moved-from \<open>Match\<close> keeps its \<open>i\<close> and \<open>j\<close>, the only
  fields \<open>pred\<close> reads.
\<close>

definition is_strict_substring :: "'g Match list \<Rightarrow> 'g Match \<Rightarrow> bool" where
  \<comment> \<open>the predicate given to \<open>remove_if\<close>, reading the vector \<open>v\<close>\<close>
  "is_strict_substring v m =
     list_ex (\<lambda>other. \<not> (match_i other = match_i m \<and> match_j other = match_j m)
                      \<and> match_i other \<le> match_i m \<and> match_j other \<ge> match_j m) v"

function remove_if_loop :: "'g Match list \<Rightarrow> nat \<Rightarrow> nat \<Rightarrow> 'g Match list \<times> nat" where
  "remove_if_loop v r k =
     (if k < length v then
        (if is_strict_substring v (v ! k) then remove_if_loop v r (k + 1)
         else remove_if_loop (v[r := v ! k]) (r + 1) (k + 1))
      else (v, r))"
  by pat_completeness auto
termination
  by (relation "measure (\<lambda>(v, r, k). length v - k)") auto

declare remove_if_loop.simps [simp del]

definition erase_strict_substrings :: "'g Match list \<Rightarrow> 'g Match list" where
  "erase_strict_substrings matches = (case remove_if_loop matches 0 0 of (v, r) \<Rightarrow> take r v)"

definition date_match :: "'g env \<Rightarrow> string \<Rightarrow> 'g Match list option" where
  "date_match e password =
     (case collect (map (date_no_separator_at e password) (date_spans (length password) 4 8)) of
        None \<Rightarrow> None
      | Some without \<Rightarrow>
          (case collect (map (date_with_separator_at password) (date_spans (length password) 6 10)) of
             None \<Rightarrow> None
           | Some with_sep \<Rightarrow>
               Some (sorted_matches e (erase_strict_substrings (without @ with_sep)))))"

subsection \<open>The date rules in the words of the specification\<close>

definition four_digit_year :: "nat \<Rightarrow> bool" where
  \<comment> \<open>a value in [1000, 2050]\<close>
  "four_digit_year y = (DATE_MIN_YEAR \<le> y \<and> y \<le> DATE_MAX_YEAR)"

definition day_month_pair :: "nat \<Rightarrow> nat \<Rightarrow> bool" where
  \<comment> \<open>the two integers resolve to a (day, month) pair in one of the two orders\<close>
  "day_month_pair a b =
     ((1 \<le> a \<and> a \<le> 31 \<and> 1 \<le> b \<and> b \<le> 12) \<or> (1 \<le> b \<and> b \<le> 31 \<and> 1 \<le> a \<and> a \<le> 12))"

definition rejection_rule :: "nat \<Rightarrow> nat \<Rightarrow> nat \<Rightarrow> bool" where
  \<comment> \<open>the middle integer exceeds 31 or is zero, any integer exceeds 2050 or lies in
      100..999, two or more exceed 31, all three exceed 12, two or more equal zero\<close>
  "rejection_rule a b c =
     (b > 31 \<or> b = 0
      \<or> list_ex (\<lambda>v. v > 2050 \<or> (100 \<le> v \<and> v \<le> 999)) [a, b, c]
      \<or> length (filter (\<lambda>v. v > 31) [a, b, c]) \<ge> 2
      \<or> list_all (\<lambda>v. v > 12) [a, b, c]
      \<or> length (filter (\<lambda>v. v = 0) [a, b, c]) \<ge> 2)"

definition anchored_rejection :: "nat \<Rightarrow> nat \<Rightarrow> nat \<Rightarrow> bool" where
  \<comment> \<open>an outer integer is a four-digit year and the other two are no (day, month) pair\<close>
  "anchored_rejection a b c =
     ((four_digit_year c \<and> \<not> day_month_pair a b) \<or> (four_digit_year a \<and> \<not> day_month_pair b c))"

definition covers :: "'g Match \<Rightarrow> 'g Match \<Rightarrow> bool" where
  \<comment> \<open>the range of \<open>m\<close> is a strict subset of the range of \<open>other\<close>\<close>
  "covers other m = (\<not> (match_i other = match_i m \<and> match_j other = match_j m)
                      \<and> match_i other \<le> match_i m \<and> match_j other \<ge> match_j m)"

subsection \<open>Regex matching\<close>

text \<open>
  The regular expressions of \<open>REGEXEN\<close> are built from digits, literal characters,
  concatenation and alternation. \<open>rx_match r s\<close> is \<open>std::regex_match\<close>: the expression
  matches the whole of \<open>s\<close>.
\<close>

datatype rx = Digit | Chr char | Seq rx rx | Alt rx rx

fun rx_match :: "rx \<Rightarrow> string \<Rightarrow> bool" where
  "rx_match Digit s = (case s of [c] \<Rightarrow> is_digit c | _ \<Rightarrow> False)"
| "rx_match (Chr a) s = (s = [a])"
| "rx_match (Seq r1 r2) s =
     list_ex (\<lambda>k. rx_match r1 (take k s) \<and> rx_match r2 (drop k s)) [0..<Suc (length s)]"
| "rx_match (Alt r1 r2) s = (rx_match r1 s \<or> rx_match r2 s)"

definition recent_year_rx :: rx where
  \<comment> \<open>\<open>19\d\d|200\d|201\d\<close>\<close>
  "recent_year_rx =
     Alt (Seq (Chr CHR ''1'') (Seq (Chr CHR ''9'') (Seq Digit Digit)))
      (Alt (Seq (Chr CHR ''2'') (Seq (Chr CHR ''0'') (Seq (Chr CHR ''0'') Digit)))
           (Seq (Chr CHR ''2'') (Seq (Chr CHR ''0'') (Seq (Chr CHR ''1'') Digit))))"

definition REGEXEN :: "(RegexTag \<times> rx) list" where
  "REGEXEN = [(RECENT_YEAR, recent_year_rx)]"

lemma rx_match_nonempty: "rx_match r s \<Longrightarrow> s \<noteq> []"
  by (induction r arbitrary: s) (auto simp: list_ex_iff split: list.splits)

text \<open>
  The \<open>while\<close> loop of \<open>regex_match\<close> for one entry of the table. The call is
  \<open>std::regex_match\<close> on the rest of the password from \<open>lastIndex\<close>, so a match is the
  whole rest; \<open>rx_match.position()\<close> counts from the iterator the search started at.
\<close>

function regex_match_loop :: "string \<Rightarrow> RegexTag \<Rightarrow> rx \<Rightarrow> nat \<Rightarrow> 'g Match list" where
  "regex_match_loop password tag regex lastIndex =
     (if rx_match regex (drop lastIndex password) then
        (let token = drop lastIndex password; position = 0
         in Match position (position + length token - 1) token (RegexMatch tag [token])
              # regex_match_loop password tag regex (lastIndex + length token))
      else [])"
  by pat_completeness auto
termination
proof (relation "measure (\<lambda>(password, tag, regex, lastIndex). Suc (length password) - lastIndex)")
  fix password :: string and tag :: RegexTag and regex lastIndex and x :: string and xa :: nat
  assume a: "rx_match regex (drop lastIndex password)" and x: "x = drop lastIndex password"
  from a have "drop lastIndex password \<noteq> []" by (rule rx_match_nonempty)
  then have "lastIndex < length password" by simp
  then show "((password, tag, regex, lastIndex + length x), password, tag, regex, lastIndex)
      \<in> measure (\<lambda>(password, tag, regex, lastIndex). Suc (length password) - lastIndex)"
    using x by simp
qed simp

declare regex_match_loop.simps [simp del]

definition regex_match :: "'g env \<Rightarrow> string \<Rightarrow> (RegexTag \<times> rx) list \<Rightarrow> 'g Match list" where
  "regex_match e password regexen =
     sorted_matches e
       (concat (map (\<lambda>(tag, regex). regex_match_loop password tag regex 0) regexen))"

subsection \<open>Repeat matching\<close>

text \<open>
  The three expressions of \<open>repeat_match\<close> have a back reference, so each is modelled by
  the search it performs. \<open>.\<close> matches every character but a line terminator. At a
  position \<open>p\<close> the expression \<open>(.+)\1+\<close> matches with a captured unit of length \<open>k\<close>
  exactly when \<open>unit_repeats s p k\<close>; the greedy \<open>(.+)\<close> tries the longest unit first, the
  lazy \<open>(.+?)\<close> the shortest, and \<open>\1+\<close> then takes every further copy of the unit.
  \<open>regex_search\<close> reports the leftmost position that has a match.
\<close>

definition dot :: "char \<Rightarrow> bool" where
  "dot c = (c \<noteq> CHR 0x0A \<and> c \<noteq> CHR 0x0D)"

definition unit_repeats :: "string \<Rightarrow> nat \<Rightarrow> nat \<Rightarrow> bool" where
  "unit_repeats s p k =
     (1 \<le> k \<and> p + 2 * k \<le> length s \<and> list_all dot (substr s p k)
      \<and> substr s (p + k) k = substr s p k)"

function count_reps :: "string \<Rightarrow> string \<Rightarrow> nat" where
  \<comment> \<open>the number of copies of \<open>u\<close> that \<open>s\<close> starts with\<close>
  "count_reps u s =
     (if u \<noteq> [] \<and> take (length u) s = u then Suc (count_reps u (drop (length u) s)) else 0)"
  by pat_completeness auto
termination
proof (relation "measure (\<lambda>(u, s). length s)")
  fix u s :: string
  assume a: "u \<noteq> [] \<and> take (length u) s = u"
  then have "length u \<le> length s"
    by (metis length_take min.cobounded1)
  moreover from a obtain n where "length u = Suc n" by (cases u) auto
  ultimately show "((u, drop (length u) s), u, s) \<in> measure (\<lambda>(u, s). length s)" by simp
qed simp

declare count_reps.simps [simp del]

record smatch =
  position :: nat
  str0 :: string
  str1 :: string

definition match_with_unit :: "string \<Rightarrow> nat \<Rightarrow> nat \<Rightarrow> nat \<Rightarrow> smatch" where
  \<comment> \<open>the match at \<open>p\<close> with a unit of length \<open>k\<close>, for a search started at \<open>start\<close>\<close>
  "match_with_unit s start p k =
     (let u = substr s p k
      in \<lparr>position = p - start,
          str0 = substr s p (k * (1 + count_reps u (drop (p + k) s))),
          str1 = u\<rparr>)"

definition unit_lengths :: "string \<Rightarrow> nat \<Rightarrow> nat list" where
  "unit_lengths s p = [1..<Suc ((length s - p) div 2)]"

definition regex_search_at :: "bool \<Rightarrow> string \<Rightarrow> nat \<Rightarrow> smatch option" where
  \<comment> \<open>\<open>regex_search\<close> from \<open>start\<close> with \<open>(.+)\1+\<close> (greedy) or \<open>(.+?)\1+\<close> (lazy)\<close>
  "regex_search_at greedy s start =
     (case List.find (\<lambda>p. list_ex (unit_repeats s p) (unit_lengths s p)) [start..<length s] of
        None \<Rightarrow> None
      | Some p \<Rightarrow>
          map_option (match_with_unit s start p)
            (List.find (unit_repeats s p)
               (if greedy then rev (unit_lengths s p) else unit_lengths s p)))"

definition regex_search_lazy_anchored :: "string \<Rightarrow> smatch option" where
  \<comment> \<open>\<open>regex_search\<close> with \<open>^(.+?)\1+$\<close>\<close>
  "regex_search_lazy_anchored g =
     map_option (\<lambda>k. \<lparr>position = 0, str0 = g, str1 = take k g\<rparr>)
       (List.find (\<lambda>k. unit_repeats g 0 k
                       \<and> k * (1 + count_reps (take k g) (drop k g)) = length g)
          (unit_lengths g 0))"

text \<open>
  One turn of the \<open>while\<close> loop of \<open>repeat_match\<close>, up to the recursive call: \<open>Break\<close>
  leaves the loop, \<open>Found i j token base_token\<close> goes on, \<open>Abort\<close> is the failed
  \<open>assert\<close> (and the use of an empty \<open>lazy_match\<close>, which has no defined result).
\<close>

datatype repeat_step_result = Break | Abort | Found nat nat string string

definition found :: "nat \<Rightarrow> smatch \<Rightarrow> string \<Rightarrow> repeat_step_result" where
  "found lastIndex m base_token =
     Found (lastIndex + position m) (lastIndex + position m + length (str0 m) - 1)
           (str0 m) base_token"

definition repeat_step :: "string \<Rightarrow> nat \<Rightarrow> repeat_step_result" where
  "repeat_step password lastIndex =
     (case regex_search_at True password lastIndex of
        None \<Rightarrow> Break
      | Some greedy_match \<Rightarrow>
          (let lazy_match = regex_search_at False password lastIndex;
               lazy_length = (case lazy_match of None \<Rightarrow> 0 | Some l \<Rightarrow> length (str0 l))
           in if length (str0 greedy_match) > lazy_length then
                (case regex_search_lazy_anchored (str0 greedy_match) of
                   None \<Rightarrow> Abort
                 | Some lazy_anchored_match \<Rightarrow>
                     found lastIndex greedy_match (str1 lazy_anchored_match))
              else
                (case lazy_match of
                   None \<Rightarrow> Abort
                 | Some l \<Rightarrow> found lastIndex l (str1 l))))"

subsection \<open>Sequence matching\<close>

definition schar :: "char \<Rightarrow> int" where
  \<comment> \<open>a \<open>char\<close> promoted to \<open>int\<close> (\<open>char\<close> is signed, as the test \<open>c < 0\<close> of
      \<open>translate\<close> takes it to be)\<close>
  "schar c = (if (of_char c :: nat) < 128 then int (of_char c) else int (of_char c) - 256)"

definition MAX_DELTA :: int where
  "MAX_DELTA = 5"

definition is_lower :: "char \<Rightarrow> bool" where
  "is_lower c = (CHR ''a'' \<le> c \<and> c \<le> CHR ''z'')"

definition is_upper :: "char \<Rightarrow> bool" where
  "is_upper c = (CHR ''A'' \<le> c \<and> c \<le> CHR ''Z'')"

definition all_of :: "(char \<Rightarrow> bool) \<Rightarrow> string \<Rightarrow> bool" where
  \<comment> \<open>\<open>regex_search\<close> with \<open>^[class]+$\<close>\<close>
  "all_of cls t = (t \<noteq> [] \<and> list_all cls t)"

definition update :: "string \<Rightarrow> nat \<Rightarrow> nat \<Rightarrow> int \<Rightarrow> 'g Match list" where
  \<comment> \<open>the lambda \<open>update\<close>: the matches it pushes\<close>
  "update password i j delta =
     (if j - i > 1 \<or> \<bar>delta\<bar> = 1 then
        (if 0 < \<bar>delta\<bar> \<and> \<bar>delta\<bar> \<le> MAX_DELTA then
           (let token = substr password i (j - i + 1);
                (sequence_name, sequence_space) =
                  (if all_of is_lower token then (LOWER, 26)
                   else if all_of is_upper token then (UPPER, 26)
                   else if all_of is_digit token then (DIGITS, 10)
                   else (UNICODE, 26))
            in [Match i j token (SequenceMatch sequence_name sequence_space (delta > 0))])
         else [])
      else [])"

definition sequence_step ::
  "string \<Rightarrow> nat \<times> int option \<times> 'g Match list \<Rightarrow> nat \<Rightarrow> nat \<times> int option \<times> 'g Match list" where
  \<comment> \<open>the body of the \<open>for\<close> loop at \<open>k\<close>, on the state \<open>(i, maybe_last_delta, result)\<close>\<close>
  "sequence_step password st k =
     (case st of (i, maybe_last_delta, result) \<Rightarrow>
        let delta = schar (password ! k) - schar (password ! (k - 1));
            last_delta = (case maybe_last_delta of None \<Rightarrow> delta | Some d \<Rightarrow> d)
        in if delta = last_delta then (i, Some last_delta, result)
           else (let j = k - 1
                 in (j, Some delta, result @ update password i j last_delta)))"

definition sequence_match :: "string \<Rightarrow> 'g Match list" where
  "sequence_match password =
     (if length password = 1 then []
      else (case foldl (sequence_step password) (0, None, []) [1..<length password] of
              (i, maybe_last_delta, result) \<Rightarrow>
                (case maybe_last_delta of
                   Some d \<Rightarrow> result @ update password i (length password - 1) d
                 | None \<Rightarrow> result)))"

subsection \<open>Spatial matching\<close>

definition str_find :: "string \<Rightarrow> string \<Rightarrow> nat option" where
  \<comment> \<open>\<open>s.find(pat)\<close>; \<open>None\<close> is \<open>npos\<close>\<close>
  "str_find s pat =
     (if length pat \<le> length s
      then List.find (\<lambda>p. substr s p (length pat) = pat) [0..<Suc (length s - length pat)]
      else None)"

definition SHIFTED_RX :: "string \<Rightarrow> bool" where
  \<comment> \<open>\<open>regex_search\<close> with the class of shifted characters: some character is in it\<close>
  "SHIFTED_RX s =
     list_ex (\<lambda>c. c \<in> set (''~!@#$%^&*()_+QWERTYUIOP{}|ASDFGHJKL:'' @ [CHR 0x22] @ ''ZXCVBNM<>?'')) s"

fun find_adjacent :: "string option list \<Rightarrow> string \<Rightarrow> int \<Rightarrow> (int \<times> bool) option" where
  \<comment> \<open>the loop over \<open>adjacents\<close>: the direction found and whether the key is shifted\<close>
  "find_adjacent [] cur_char cur_direction = None"
| "find_adjacent (adj # adjacents) cur_char cur_direction =
     (case adj of
        None \<Rightarrow> find_adjacent adjacents cur_char (cur_direction + 1)
      | Some a \<Rightarrow>
          (case str_find a cur_char of
             None \<Rightarrow> find_adjacent adjacents cur_char (cur_direction + 1)
           | Some pos \<Rightarrow> Some (cur_direction + 1, pos = 1)))"

function spatial_grow ::
  "string \<Rightarrow> Graph \<Rightarrow> nat \<Rightarrow> int \<Rightarrow> nat \<Rightarrow> nat \<Rightarrow> nat \<times> nat \<times> nat" where
  \<comment> \<open>the inner \<open>while (true)\<close>: \<open>j\<close>, \<open>turns\<close> and \<open>shifted_count\<close> when it breaks\<close>
  "spatial_grow password graph j last_direction turns shifted_count =
     (let prev_char = substr password (j - 1) 1;
          adjacents = (case map_of graph prev_char of Some a \<Rightarrow> a | None \<Rightarrow> [])
      in if j < length password then
           (case find_adjacent adjacents (substr password j 1) (- 1) of
              Some (found_direction, shifted) \<Rightarrow>
                spatial_grow password graph (j + 1)
                  (if last_direction \<noteq> found_direction then found_direction else last_direction)
                  (if last_direction \<noteq> found_direction then turns + 1 else turns)
                  (if shifted then shifted_count + 1 else shifted_count)
            | None \<Rightarrow> (j, turns, shifted_count))
         else (j, turns, shifted_count))"
  by pat_completeness auto
termination
  by (relation "measure (\<lambda>(password, graph, j, l, t, s). length password - j)") auto

declare spatial_grow.simps [simp del]

lemma spatial_grow_ge: "spatial_grow password graph j l t s = (j', t', s') \<Longrightarrow> j \<le> j'"
proof (induction password graph j l t s rule: spatial_grow.induct)
  case (1 password graph j last_direction turns shifted_count)
  show ?case
  proof (cases "j < length password")
    case False
    with "1.prems" show ?thesis by (simp add: spatial_grow.simps[of password graph j] Let_def)
  next
    case True
    show ?thesis
    proof (cases "find_adjacent (case map_of graph (substr password (j - 1) 1) of
                     Some a \<Rightarrow> a | None \<Rightarrow> []) (substr password j 1) (- 1)")
      case None
      with True "1.prems" show ?thesis by (simp add: spatial_grow.simps[of password graph j] Let_def)
    next
      case (Some fs)
      obtain fd sh where fs: "fs = (fd, sh)" by (cases fs)
      have "Suc j \<le> j'"
        using "1.IH"[OF refl refl True Some fs[symmetric]] "1.prems" True Some fs
        by (simp add: spatial_grow.simps[of password graph j] Let_def)
      then show ?thesis by simp
    qed
  qed
qed

function spatial_scan :: "string \<Rightarrow> Graph \<Rightarrow> GraphTag \<Rightarrow> nat \<Rightarrow> 'g Match list" where
  \<comment> \<open>the outer \<open>while\<close>, for a password that is not empty\<close>
  "spatial_scan password graph graph_tag i =
     (if i < length password - 1 then
        (case spatial_grow password graph (i + 1) (- 1) 0
                (if (graph_tag = QWERTY \<or> graph_tag = DVORAK) \<and> SHIFTED_RX (substr password i 1)
                 then 1 else 0) of
           (j, turns, shifted_count) \<Rightarrow>
             (if j - i > 2
              then [Match i (j - 1) (substr password i (j - i))
                      (SpatialMatch graph_tag turns shifted_count)]
              else [])
             @ spatial_scan password graph graph_tag j)
      else [])"
  by pat_completeness auto
termination
  apply (relation "measure (\<lambda>(password, graph, graph_tag, i). length password - i)")
   apply simp
   apply (auto dest: spatial_grow_ge[OF sym])
  done

declare spatial_scan.simps [simp del]

definition spatial_match_helper :: "string \<Rightarrow> Graph \<Rightarrow> GraphTag \<Rightarrow> 'g Match list" where
  "spatial_match_helper password graph graph_tag =
     (if length password = 0 then [] else spatial_scan password graph graph_tag 0)"

definition spatial_match :: "string \<Rightarrow> Graphs \<Rightarrow> 'g Match list" where
  "spatial_match password gs =
     concat (map (\<lambda>(tag, graph). spatial_match_helper password graph tag) gs)"

subsection \<open>What a turn of the repeat loop finds\<close>

lemma count_reps_bound: "length u * count_reps u s \<le> length s"
proof (induction u s rule: count_reps.induct)
  case (1 u s)
  show ?case
  proof (cases "u \<noteq> [] \<and> take (length u) s = u")
    case False
    then show ?thesis by (subst count_reps.simps) auto
  next
    case True
    then have le: "length u \<le> length s" by (metis length_take min.cobounded1)
    from "1.IH"[OF True] have "length u * count_reps u (drop (length u) s) \<le> length s - length u"
      by simp
    with le True show ?thesis by (subst count_reps.simps) simp
  qed
qed

lemma length_substr: "p + k \<le> length s \<Longrightarrow> length (substr s p k) = k"
  by (simp add: substr_def)

lemma unit_repeats_count:
  assumes "unit_repeats s p k"
  shows "1 \<le> count_reps (substr s p k) (drop (p + k) s)"
proof -
  from assms have k: "1 \<le> k" "p + 2 * k \<le> length s" and eq: "substr s (p + k) k = substr s p k"
    by (auto simp: unit_repeats_def)
  have len: "length (substr s p k) = k" using k by (simp add: length_substr)
  then have ne: "substr s p k \<noteq> []" using k by auto
  have "take (length (substr s p k)) (drop (p + k) s) = substr s p k"
    using eq unfolding len by (simp add: substr_def)
  with ne show ?thesis by (subst count_reps.simps) simp
qed

lemma match_with_unit_props:
  assumes "unit_repeats s p k" "start \<le> p"
  shows "position (match_with_unit s start p k) = p - start"
    and "str1 (match_with_unit s start p k) = substr s p k"
    and "length (str1 (match_with_unit s start p k)) = k"
    and "\<exists>L. str0 (match_with_unit s start p k) = substr s p L \<and> 2 * k \<le> L \<and> p + L \<le> length s
           \<and> L = k * (1 + count_reps (substr s p k) (drop (p + k) s))"
proof -
  from assms have k: "1 \<le> k" "p + 2 * k \<le> length s" by (auto simp: unit_repeats_def)
  have len: "length (substr s p k) = k" using k by (simp add: length_substr)
  define c where "c = count_reps (substr s p k) (drop (p + k) s)"
  have c1: "1 \<le> c" unfolding c_def by (rule unit_repeats_count[OF assms(1)])
  have "length (substr s p k) * c \<le> length (drop (p + k) s)"
    unfolding c_def by (rule count_reps_bound)
  then have cb: "k * c \<le> length s - (p + k)" unfolding len by simp
  have "2 * k \<le> k * (1 + c)" using c1 by (simp add: algebra_simps)
  moreover have "p + k * (1 + c) \<le> length s" using cb k by (simp add: algebra_simps)
  ultimately show "\<exists>L. str0 (match_with_unit s start p k) = substr s p L \<and> 2 * k \<le> L \<and> p + L \<le> length s
           \<and> L = k * (1 + count_reps (substr s p k) (drop (p + k) s))"
    unfolding c_def by (simp add: match_with_unit_def Let_def)
  show "position (match_with_unit s start p k) = p - start"
    "str1 (match_with_unit s start p k) = substr s p k"
    "length (str1 (match_with_unit s start p k)) = k"
    using len by (simp_all add: match_with_unit_def Let_def)
qed

lemma find_upt_Some:
  assumes "List.find P [a..<b] = Some p"
  shows "a \<le> p \<and> p < b \<and> P p \<and> (\<forall>q. a \<le> q \<and> q < p \<longrightarrow> \<not> P q)"
proof -
  from assms obtain i where i: "i < length [a..<b]" "P ([a..<b] ! i)" "p = [a..<b] ! i"
    "\<forall>j<i. \<not> P ([a..<b] ! j)"
    unfolding find_Some_iff by blast
  have pi: "p = a + i" "i < b - a" using i(1,3) by simp_all
  have "\<not> P q" if "a \<le> q" "q < p" for q
  proof -
    have "q - a < i" using that pi by simp
    moreover have "[a..<b] ! (q - a) = q" using that pi by simp
    ultimately show ?thesis using i(4) by metis
  qed
  with i(2) pi show ?thesis by simp
qed

lemma find_rev_upt_Some:
  assumes "List.find P (rev [a..<b]) = Some p"
  shows "a \<le> p \<and> p < b \<and> P p \<and> (\<forall>q. p < q \<and> q < b \<longrightarrow> \<not> P q)"
proof -
  from assms obtain i where i: "i < length (rev [a..<b])" "P (rev [a..<b] ! i)" "p = rev [a..<b] ! i"
    "\<forall>j<i. \<not> P (rev [a..<b] ! j)"
    unfolding find_Some_iff by blast
  have il: "i < b - a" using i(1) by simp
  have pi: "p = a + (b - a - Suc i)" using i(3) il by (simp add: rev_nth)
  have "\<not> P q" if "p < q" "q < b" for q
  proof -
    have lt: "b - Suc q < i" using that pi il by simp
    have "rev [a..<b] ! (b - Suc q) = q" using that pi il by (simp add: rev_nth)
    with lt show ?thesis using i(4) by metis
  qed
  moreover from i(2,3) have "P p" by simp
  moreover have "a \<le> p" "p < b" using pi il by simp_all
  ultimately show ?thesis by blast
qed

lemma regex_search_at_Some:
  assumes "regex_search_at greedy s start = Some m"
  shows "\<exists>p k. start \<le> p \<and> p < length s \<and> unit_repeats s p k
        \<and> m = match_with_unit s start p k
        \<and> (\<forall>q. start \<le> q \<and> q < p \<longrightarrow> \<not> list_ex (unit_repeats s q) (unit_lengths s q))
        \<and> (\<forall>k'. unit_repeats s p k' \<longrightarrow> (if greedy then k' \<le> k else k \<le> k'))"
proof -
  from assms obtain p where
    p: "List.find (\<lambda>p. list_ex (unit_repeats s p) (unit_lengths s p)) [start..<length s] = Some p"
    by (auto simp: regex_search_at_def split: option.splits)
  from assms p obtain k where
    k: "List.find (unit_repeats s p) (if greedy then rev (unit_lengths s p) else unit_lengths s p) = Some k"
       "m = match_with_unit s start p k"
    by (auto simp: regex_search_at_def)
  note p' = find_upt_Some[OF p]
  have inl: "1 \<le> k' \<and> k' < Suc ((length s - p) div 2)" if "unit_repeats s p k'" for k'
    using that unfolding unit_repeats_def by auto
  have "unit_repeats s p k \<and> (\<forall>k'. unit_repeats s p k' \<longrightarrow> (if greedy then k' \<le> k else k \<le> k'))"
  proof (cases greedy)
    case True
    with k(1) have "List.find (unit_repeats s p) (rev [1..<Suc ((length s - p) div 2)]) = Some k"
      by (simp add: unit_lengths_def)
    from find_rev_upt_Some[OF this] True inl show ?thesis
      by (metis not_le_imp_less)
  next
    case False
    with k(1) have "List.find (unit_repeats s p) [1..<Suc ((length s - p) div 2)] = Some k"
      by (simp add: unit_lengths_def)
    from find_upt_Some[OF this] False inl show ?thesis
      by (metis not_le_imp_less)
  qed
  with p' k(2) show ?thesis by blast
qed

lemma lazy_anchored_Some:
  assumes "regex_search_lazy_anchored g = Some la"
  shows "\<exists>k. 1 \<le> k \<and> 2 * k \<le> length g \<and> str1 la = take k g \<and> str0 la = g \<and> unit_repeats g 0 k
           \<and> k * (1 + count_reps (take k g) (drop k g)) = length g"
proof -
  from assms obtain k where
    k: "List.find (\<lambda>k. unit_repeats g 0 k \<and> k * (1 + count_reps (take k g) (drop k g)) = length g)
          [1..<Suc ((length g - 0) div 2)] = Some k"
      "la = \<lparr>position = 0, str0 = g, str1 = take k g\<rparr>"
    by (auto simp: regex_search_lazy_anchored_def unit_lengths_def)
  from find_upt_Some[OF k(1)] k(2) show ?thesis
    by (intro exI[of _ k]) (auto simp: unit_repeats_def)
qed

lemma repeat_step_Found:
  assumes "repeat_step password lastIndex = Found i j token base_token"
  shows "lastIndex \<le> i \<and> i < j \<and> j < length password \<and> token = substr password i (j - i + 1)
         \<and> base_token \<noteq> [] \<and> 2 * length base_token \<le> length token"
proof -
  have core: "lastIndex \<le> lastIndex + position m
        \<and> lastIndex + position m < lastIndex + position m + length (str0 m) - 1
        \<and> lastIndex + position m + length (str0 m) - 1 < length password
        \<and> str0 m = substr password (lastIndex + position m)
             (lastIndex + position m + length (str0 m) - 1 - (lastIndex + position m) + 1)
        \<and> 2 \<le> length (str0 m) \<and> str1 m \<noteq> [] \<and> 2 * length (str1 m) \<le> length (str0 m)"
    if "regex_search_at greedy password lastIndex = Some m" for greedy m
  proof -
    from regex_search_at_Some[OF that] obtain p k where
      pk: "lastIndex \<le> p" "p < length password" "unit_repeats password p k"
          "m = match_with_unit password lastIndex p k" by blast
    from match_with_unit_props[OF pk(3) pk(1)] pk(4) obtain L where
      m: "position m = p - lastIndex" "length (str1 m) = k"
         "str0 m = substr password p L" "2 * k \<le> L" "p + L \<le> length password"
      by auto
    have k1: "1 \<le> k" using pk(3) by (simp add: unit_repeats_def)
    have l0: "length (str0 m) = L" using m(3,5) by (simp add: length_substr)
    have pos: "lastIndex + position m = p" using m(1) pk(1) by simp
    show ?thesis
      unfolding pos l0 using m k1 pk(1) by auto
  qed
  from assms obtain gm where gm: "regex_search_at True password lastIndex = Some gm"
    by (auto simp: repeat_step_def split: option.splits)
  show ?thesis
  proof (cases "length (str0 gm) > (case regex_search_at False password lastIndex of None \<Rightarrow> 0 | Some l \<Rightarrow> length (str0 l))")
    case True
    with assms gm obtain la where la: "regex_search_lazy_anchored (str0 gm) = Some la"
      "Found i j token base_token = found lastIndex gm (str1 la)"
      by (auto simp: repeat_step_def Let_def split: option.splits)
    from lazy_anchored_Some[OF la(1)] obtain k where
      k: "1 \<le> k" "2 * k \<le> length (str0 gm)" "str1 la = take k (str0 gm)" by blast
    then have "str1 la \<noteq> []" "2 * length (str1 la) \<le> length (str0 gm)" by auto
    with core[OF gm] la(2) show ?thesis
      by (simp add: found_def)
  next
    case False
    with assms gm obtain l where l: "regex_search_at False password lastIndex = Some l"
      "Found i j token base_token = found lastIndex l (str1 l)"
      by (auto simp: repeat_step_def Let_def split: option.splits)
    with core[OF l(1)] show ?thesis
      by (simp add: found_def)
  qed
qed

lemma repeat_step_Found_shorter:
  assumes "repeat_step password lastIndex = Found i j token base_token"
  shows "length base_token < length password \<and> lastIndex \<le> j \<and> j < length password"
proof -
  from repeat_step_Found[OF assms] have
    a: "lastIndex \<le> i" "i < j" "j < length password" "token = substr password i (j - i + 1)"
       "base_token \<noteq> []" "2 * length base_token \<le> length token"
    by auto
  have "length token \<le> length password" unfolding a(4) substr_def by simp
  moreover from a(5) have "0 < length base_token" by simp
  ultimately show ?thesis using a(1,2,3,6) by linarith
qed

subsection \<open>Dictionary matching\<close>

definition ascii_lower :: "string \<Rightarrow> string" where
  \<comment> \<open>Modelled from the spec: \<open>util::ascii_lower\<close> is not in the source file. "Case-folding
      is ASCII-only ...; non-ASCII bytes pass through unfolded."\<close>
  "ascii_lower s =
     map (\<lambda>c. if CHR ''A'' \<le> c \<and> c \<le> CHR ''Z'' then char_of (of_char c + (32 :: nat)) else c) s"

definition reverse_string :: "string \<Rightarrow> string" where
  \<comment> \<open>Modelled from the spec: \<open>util::reverse_string\<close> is not in the source file. "reverse
      the password"; the bytes in reverse order.\<close>
  "reverse_string s = rev s"

definition dictionary_match :: "'g env \<Rightarrow> string \<Rightarrow> RankedDicts \<Rightarrow> 'g Match list" where
  "dictionary_match e password ranked_dictionaries =
     (let len = length password;
          password_lower = ascii_lower password
      in sorted_matches e
           (concat (map (\<lambda>(dictionary_tag, ranked_dict).
              concat (map (\<lambda>i.
                concat (map (\<lambda>j.
                  (let word = substr password_lower i (j - i + 1)
                   in case map_of ranked_dict word of
                        Some rnk \<Rightarrow>
                          [Match i j (substr password i (j - i + 1))
                             (DictionaryP \<lparr>dictionary_tag = dictionary_tag, matched_word = word,
                                rank = rnk, reversed = False, l33t = False, sub = [],
                                sub_display = []\<rparr>)]
                      | None \<Rightarrow> []))
                  [i..<len]))
                [0..<len]))
              ranked_dictionaries)))"

definition reverse_back :: "string \<Rightarrow> 'g Match \<Rightarrow> 'g Match" where
  \<comment> \<open>the body of the loop of \<open>reverse_dictionary_match\<close>; \<open>get_dictionary()\<close> is applied
      to matches of \<open>dictionary_match\<close> only\<close>
  "reverse_back password m =
     Match (length password - 1 - match_j m) (length password - 1 - match_i m)
       (reverse_string (match_token m))
       (case match_pattern m of
          DictionaryP d \<Rightarrow> DictionaryP (d\<lparr>reversed := True\<rparr>)
        | p \<Rightarrow> p)"

definition reverse_dictionary_match :: "'g env \<Rightarrow> string \<Rightarrow> RankedDicts \<Rightarrow> 'g Match list" where
  "reverse_dictionary_match e password ranked_dictionaries =
     (let reversed_password = reverse_string password;
          matches = dictionary_match e reversed_password ranked_dictionaries
      in sorted_matches e (map (reverse_back password) matches))"

subsection \<open>Dictionary matching with l33t substitutions\<close>

definition L33T_TABLE :: "(string \<times> string list) list" where
  "L33T_TABLE =
     [(''a'', [''4'', ''@'']),
      (''b'', [''8'']),
      (''c'', [''('', ''{'', ''['', ''<'']),
      (''e'', [''3'']),
      (''g'', [''6'', ''9'']),
      (''i'', [''1'', ''!'', ''|'']),
      (''l'', [''1'', ''|'', ''7'']),
      (''o'', [''0'']),
      (''s'', [''$'', ''5'']),
      (''t'', [''+'', ''7'']),
      (''x'', [''%'']),
      (''z'', [''2''])]"

definition translate :: "string \<Rightarrow> (string \<times> string) list \<Rightarrow> string" where
  "translate string chr_map =
     concat (map (\<lambda>c. if schar c < 0 then [c]
                        else (case map_of chr_map [c] of Some ch \<Rightarrow> ch | None \<Rightarrow> [c]))
                 string)"

definition relevant_l33t_subtable ::
  "string \<Rightarrow> (string \<times> string list) list \<Rightarrow> (string \<times> string list) list" where
  \<comment> \<open>the \<open>unordered_map\<close> built, as the list of its entries in the order they were
      inserted; \<open>insert\<close> leaves an entry that is already there\<close>
  "relevant_l33t_subtable password table =
     foldl (\<lambda>subtable (letter, subs).
              (let relevant_subs = filter (\<lambda>s. str_find password s \<noteq> None) subs
               in if relevant_subs \<noteq> [] \<and> letter \<notin> fst ` set subtable
                  then subtable @ [(letter, relevant_subs)] else subtable))
           [] table"

definition sub_label :: "(string \<times> string) list \<Rightarrow> string" where
  \<comment> \<open>the label \<open>dedup\<close> gives a substitution: its sorted pairs, printed\<close>
  "sub_label s = concat (map (\<lambda>(k, v). k @ '','' @ v @ ''-'') (sort s))"

fun dedup_loop :: "(string \<times> string) list list \<Rightarrow> string list \<Rightarrow> (string \<times> string) list list" where
  "dedup_loop [] members = []"
| "dedup_loop (s # subs) members =
     (if sub_label s \<notin> set members
      then s # dedup_loop subs (sub_label s # members)
      else dedup_loop subs members)"

definition dedup :: "(string \<times> string) list list \<Rightarrow> (string \<times> string) list list" where
  "dedup subs = dedup_loop subs []"

fun erase_first :: "('a \<Rightarrow> bool) \<Rightarrow> 'a list \<Rightarrow> 'a list" where
  \<comment> \<open>\<open>erase\<close> at the iterator \<open>find_if\<close> returned\<close>
  "erase_first P [] = []"
| "erase_first P (x # xs) = (if P x then xs else x # erase_first P xs)"

definition sub_alternatives ::
  "string \<Rightarrow> string \<Rightarrow> (string \<times> string) list \<Rightarrow> (string \<times> string) list list" where
  \<comment> \<open>what the innermost loop of \<open>enumerate_l33t_subs\<close> pushes to \<open>next_subs\<close>\<close>
  "sub_alternatives first_key l33t_chr s =
     (if \<not> list_ex (\<lambda>sub_elt. fst sub_elt = l33t_chr) s
      then [s @ [(l33t_chr, first_key)]]
      else [s, erase_first (\<lambda>sub_elt. fst sub_elt = l33t_chr) s @ [(l33t_chr, first_key)]])"

definition enumerate_l33t_subs :: "(string \<times> string list) list \<Rightarrow> (string \<times> string) list list" where
  \<comment> \<open>each substitution is the \<open>unordered_map\<close> built from its association list, as the
      list of its entries\<close>
  "enumerate_l33t_subs table =
     foldl (\<lambda>subs (first_key, l33t_chrs).
              dedup (concat (map (\<lambda>l33t_chr. concat (map (sub_alternatives first_key l33t_chr) subs))
                                 l33t_chrs)))
           [[]] table"

definition show_sub :: "(string \<times> string) list \<Rightarrow> string" where
  \<comment> \<open>\<open>sub_display\<close>\<close>
  "show_sub match_sub =
     (case match_sub of
        [] \<Rightarrow> []
      | item # items \<Rightarrow>
          fst item @ '' -> '' @ snd item
          @ concat (map (\<lambda>it. '', '' @ fst it @ '' -> '' @ snd it) items))"

definition l33t_one :: "string \<Rightarrow> (string \<times> string) list \<Rightarrow> 'g Match \<Rightarrow> 'g Match list" where
  \<comment> \<open>the body of the inner loop of \<open>l33t_match\<close>: the matches pushed for \<open>m\<close>\<close>
  "l33t_one password s m =
     (case match_pattern m of
        DictionaryP dmatch \<Rightarrow>
          (let token = substr password (match_i m) (match_j m - match_i m + 1)
           in if ascii_lower token = matched_word dmatch then []
              else (let match_sub = filter (\<lambda>(subbed_chr, chr). str_find token subbed_chr \<noteq> None) s
                    in [Match (match_i m) (match_j m) token
                          (DictionaryP (dmatch\<lparr>l33t := True, sub := match_sub,
                                               sub_display := show_sub match_sub\<rparr>))]))
      | _ \<Rightarrow> [])"

definition l33t_match ::
  "'g env \<Rightarrow> string \<Rightarrow> RankedDicts \<Rightarrow> (string \<times> string list) list \<Rightarrow> 'g Match list" where
  \<comment> \<open>the outer loop breaks at the first empty substitution\<close>
  "l33t_match e password ranked_dictionaries l33t_table =
     (let matches =
            concat (map (\<lambda>s. (let subbed_password = translate password s
                               in concat (map (l33t_one password s)
                                    (dictionary_match e subbed_password ranked_dictionaries))))
                        (takeWhile (\<lambda>s. s \<noteq> [])
                           (enumerate_l33t_subs (relevant_l33t_subtable password l33t_table))))
      in sorted_matches e (filter (\<lambda>a. \<not> length (match_token a) \<le> 1) matches))"

subsection \<open>omnimatch\<close>

definition ranked_dictionaries_of :: "'g env \<Rightarrow> string list \<Rightarrow> RankedDicts" where
  \<comment> \<open>\<open>default_ranked_dicts()\<close> with the user inputs inserted\<close>
  "ranked_dictionaries_of e ordered_list =
     (if USER_INPUTS \<in> fst ` set (default_ranked_dicts e) then default_ranked_dicts e
      else default_ranked_dicts e @ [(USER_INPUTS, build_ranked_dict e ordered_list)])"

definition repeat_searches_fail :: "'g env \<Rightarrow> string \<Rightarrow> nat \<Rightarrow> bool" where
  \<comment> \<open>the library fails in a search of the turn at \<open>lastIndex\<close>: the greedy and the
      lazy search run on the rest of the password, the anchored one on the greedy match
      when that is the longer\<close>
  "repeat_searches_fail e password lastIndex =
     (regex_search_fails e GREEDY (drop lastIndex password)
      \<or> regex_search_fails e LAZY (drop lastIndex password)
      \<or> (case regex_search_at True password lastIndex of
            None \<Rightarrow> False
          | Some greedy_match \<Rightarrow>
              length (str0 greedy_match)
                > (case regex_search_at False password lastIndex of
                     None \<Rightarrow> 0 | Some l \<Rightarrow> length (str0 l))
              \<and> regex_search_fails e LAZY_ANCHORED (str0 greedy_match)))"

text \<open>
  \<open>omnimatch\<close> and the \<open>while\<close> loop of \<open>repeat_match\<close> (from \<open>lastIndex\<close> on) call each
  other: the loop calls \<open>omnimatch(base_token)\<close>, without user inputs. A turn in which
  the library fails has no result, and neither has the division by the length of an
  empty base token.
\<close>

function omnimatch :: "'g env \<Rightarrow> string \<Rightarrow> string list \<Rightarrow> 'g Match list option"
  and repeat_match_from :: "'g env \<Rightarrow> string \<Rightarrow> nat \<Rightarrow> 'g Match list option" where
  "omnimatch e password ordered_list =
     (let ranked_dictionaries = ranked_dictionaries_of e ordered_list
      in case repeat_match_from e password 0 of
           None \<Rightarrow> None
         | Some repeats \<Rightarrow>
             (case date_match e password of
                None \<Rightarrow> None
              | Some dates \<Rightarrow>
                  Some (sorted_matches e
                    (dictionary_match e password ranked_dictionaries
                     @ reverse_dictionary_match e password ranked_dictionaries
                     @ l33t_match e password ranked_dictionaries L33T_TABLE
                     @ spatial_match password (graphs e)
                     @ repeats
                     @ sequence_match password
                     @ regex_match e password REGEXEN
                     @ dates))))"
| "repeat_match_from e password lastIndex =
     (if lastIndex < length password then
        (if repeat_searches_fail e password lastIndex then None
         else
           (case repeat_step password lastIndex of
              Break \<Rightarrow> Some []
            | Abort \<Rightarrow> None
            | Found i j token base_token \<Rightarrow>
                (case omnimatch e base_token [] of
                   None \<Rightarrow> None
                 | Some sub_matches \<Rightarrow>
                     (let base_analysis = most_guessable_match_sequence e base_token sub_matches False
                      in if base_token = [] then None
                         else (case repeat_match_from e password (j + 1) of
                                 None \<Rightarrow> None
                               | Some rest \<Rightarrow>
                                   Some (Match i j token
                                           (RepeatMatch base_token (fst base_analysis)
                                              (snd base_analysis)
                                              (length token div length base_token))
                                         # rest))))))
      else Some [])"
  by pat_completeness auto
termination
  by (relation "inv_image (less_than <*lex*> less_than)
        (\<lambda>x. case x of
                Inl (e, password, ordered_list) \<Rightarrow> (length password, length password + 1)
              | Inr (e, password, lastIndex) \<Rightarrow> (length password, length password - lastIndex))")
     (auto dest!: repeat_step_Found_shorter)

declare omnimatch.simps [simp del] repeat_match_from.simps [simp del]

subsection \<open>An environment for the examples\<close>

text \<open>
  No dictionaries, no graphs, the reference year 2000 named in the comment of
  \<open>date_match\<close>, a scoring engine that keeps every match, insertion sort (one of
  the sorts that meet the contract) and a regex library that always returns.
\<close>

definition match_key :: "'g Match \<Rightarrow> nat \<times> nat" where
  "match_key m = (match_i m, match_j m)"

definition example_env :: "nat env" where
  "example_env =
     \<lparr>default_ranked_dicts = [], build_ranked_dict = (\<lambda>ws. []), graphs = [],
      REFERENCE_YEAR = 2000,
      most_guessable_match_sequence = (\<lambda>password matches exclude_additive. (0, matches)),
      std_sort = sort_key match_key,
      regex_search_fails = (\<lambda>rx subject. False)\<rparr>"

subsection \<open>The invariant of a match, in the words of the specification\<close>

definition match_ok :: "string \<Rightarrow> 'g Match \<Rightarrow> bool" where
  \<comment> \<open>\<open>0 \<le> i \<le> j < length(password)\<close> and \<open>token == password[i..=j]\<close>\<close>
  "match_ok password m =
     (match_i m \<le> match_j m \<and> match_j m < length password
      \<and> match_token m = substr password (match_i m) (match_j m - match_i m + 1))"

subsection \<open>A second sort that meets the contract\<close>

definition tie_reversing_sort :: "'g Match list \<Rightarrow> 'g Match list" where
  \<comment> \<open>sorted by \<open>(i, j)\<close>, the matches of one range in the reverse of their order\<close>
  "tie_reversing_sort ms = sort_key match_key (rev ms)"

definition reversing_env :: "nat env" where
  "reversing_env = example_env\<lparr>std_sort := tie_reversing_sort\<rparr>"

definition matchers_output ::
  "'g env \<Rightarrow> string \<Rightarrow> string list \<Rightarrow> 'g Match list \<Rightarrow> 'g Match list \<Rightarrow> 'g Match list" where
  \<comment> \<open>the results of the eight matchers in the order \<open>omnimatch\<close> runs them, given the
      results of the repeat matcher and the date matcher\<close>
  "matchers_output e password ordered_list repeats dates =
     dictionary_match e password (ranked_dictionaries_of e ordered_list)
     @ reverse_dictionary_match e password (ranked_dictionaries_of e ordered_list)
     @ l33t_match e password (ranked_dictionaries_of e ordered_list) L33T_TABLE
     @ spatial_match password (graphs e)
     @ repeats
     @ sequence_match password
     @ regex_match e password REGEXEN
     @ dates"

subsection \<open>A regex library with a limit\<close>


section \<open>Date triples\<close>

lemma count3_ge2: "2 \<le> length (filter P [a, b, c]) \<longleftrightarrow> (P a \<and> P b) \<or> (P a \<and> P c) \<or> (P b \<and> P c)"
  by auto

lemma count3_eq3: "length (filter P [a, b, c]) = 3 \<longleftrightarrow> P a \<and> P b \<and> P c"
  by auto

lemma dm_None: "map_ints_to_dm (a, b) = None \<longleftrightarrow> \<not> day_month_pair a b"
  by (auto simp: map_ints_to_dm_def day_month_pair_def split: option.splits)

lemma dm_Some: "day_month_pair a b \<Longrightarrow> \<exists>dm. map_ints_to_dm (a, b) = Some dm"
  using dm_None[of a b] by auto

lemma rule_rejects: "rejection_rule a b c \<Longrightarrow> map_ints_to_dmy (a, b, c) = None"
  unfolding rejection_rule_def map_ints_to_dmy_def DATE_MIN_YEAR_def DATE_MAX_YEAR_def Let_def count3_ge2 count3_eq3
  by (simp del: filter.simps) linarith

lemma no_rule: "\<not> rejection_rule a b c \<Longrightarrow> map_ints_to_dmy (a, b, c) =
   (if four_digit_year c then (case map_ints_to_dm (a, b) of Some dm \<Rightarrow> Some \<lparr>year = c, month = month dm, day = day dm\<rparr> | None \<Rightarrow> None)
    else if four_digit_year a then (case map_ints_to_dm (b, c) of Some dm \<Rightarrow> Some \<lparr>year = a, month = month dm, day = day dm\<rparr> | None \<Rightarrow> None)
    else (case map_ints_to_dm (a, b) of Some dm \<Rightarrow> Some \<lparr>year = two_to_four_digit_year c, month = month dm, day = day dm\<rparr>
          | None \<Rightarrow> (case map_ints_to_dm (b, c) of Some dm \<Rightarrow> Some \<lparr>year = two_to_four_digit_year a, month = month dm, day = day dm\<rparr> | None \<Rightarrow> None)))"
proof -
  assume n: "\<not> rejection_rule a b c"
  have g: "\<not> (b > 31 \<or> b = 0)"
     "\<not> list_ex (\<lambda>val. (99 < val \<and> val < DATE_MIN_YEAR) \<or> val > DATE_MAX_YEAR) [a, b, c]"
     "\<not> (length (filter (\<lambda>val. val > 31) [a, b, c]) \<ge> 2 \<or> length (filter (\<lambda>val. val > 12) [a, b, c]) = 3
         \<or> length (filter (\<lambda>val. val \<le> 0) [a, b, c]) \<ge> 2)"
    using n unfolding rejection_rule_def DATE_MIN_YEAR_def DATE_MAX_YEAR_def count3_ge2 count3_eq3
    by (simp_all del: filter.simps) linarith+
  show ?thesis
    unfolding map_ints_to_dmy_def Let_def prod.case if_not_P[OF g(1)] if_not_P[OF g(2)] if_not_P[OF g(3)]
    by (simp add: four_digit_year_def split: option.splits)
qed



text \<open>
  C5 (as amended). \<open>map_ints_to_dmy\<close> returns no date whenever a rejection rule fires
  (the middle integer exceeds 31 or is zero, an integer exceeds 2050 or lies in 100..999,
  two or more exceed 31, all three exceed 12, two or more are zero), and whenever an outer
  integer is a four-digit year while the other two are no (day, month) pair. It returns
  no date in one more case only: no outer integer is a four-digit year and neither the
  first two nor the last two integers are a (day, month) pair.
\<close>

theorem map_ints_to_dmy_rejects:
  "map_ints_to_dmy (a, b, c) = None \<longleftrightarrow>
     rejection_rule a b c \<or> anchored_rejection a b c
     \<or> (\<not> four_digit_year a \<and> \<not> four_digit_year c \<and> \<not> day_month_pair a b \<and> \<not> day_month_pair b c)"
proof (cases "rejection_rule a b c")
  case True
  then show ?thesis by (simp add: rule_rejects)
next
  case False
  have both: "\<not> (four_digit_year a \<and> four_digit_year c)"
    using False unfolding rejection_rule_def four_digit_year_def DATE_MIN_YEAR_def DATE_MAX_YEAR_def count3_ge2
    by (simp del: filter.simps) linarith
  show ?thesis
    using both False
    by (auto simp: no_rule anchored_rejection_def dm_None[symmetric] split: option.splits)
qed

theorem map_ints_to_dmy_rejects_witness:
  "map_ints_to_dmy (2015, 13, 40) = None \<and> anchored_rejection 2015 13 40"
proof -
  have "anchored_rejection 2015 13 40"
    by (simp add: anchored_rejection_def four_digit_year_def day_month_pair_def
        DATE_MIN_YEAR_def DATE_MAX_YEAR_def)
  then show ?thesis using map_ints_to_dmy_rejects [of 2015 13 40] by simp
qed

text \<open>
  The triple (0, 5, 40), the split 0|5|40 of the token 0540: no rejection rule fires, no
  integer is a four-digit year, and no date comes back.
\<close>

theorem map_ints_to_dmy_rejects_counterexample:
  "map_ints_to_dmy (0, 5, 40) = None \<and> \<not> rejection_rule 0 5 40 \<and> \<not> anchored_rejection 0 5 40"
  by (simp add: map_ints_to_dmy_def map_ints_to_dm_def rejection_rule_def anchored_rejection_def
      four_digit_year_def DATE_MIN_YEAR_def DATE_MAX_YEAR_def)

section \<open>Overlap pruning\<close>

lemma iss_covers: "is_strict_substring v m \<longleftrightarrow> (\<exists>other\<in>set v. covers other m)"
  by (simp add: is_strict_substring_def covers_def list_ex_iff)

lemma covers_trans: "covers a b \<Longrightarrow> covers b c \<Longrightarrow> covers a c"
  unfolding covers_def by auto

lemma covers_width: "covers a b \<Longrightarrow> match_j b - match_i b < match_j a - match_i a \<or> match_j b < match_i b"
  unfolding covers_def by auto

lemma maximal_cover:
  assumes "o1 \<in> set ms" "covers o1 m"
  shows "\<exists>o2\<in>set ms. covers o2 m \<and> \<not> is_strict_substring ms o2"
proof -
  define w :: "'a Match \<Rightarrow> nat" where "w = (\<lambda>x. match_j x + match_i m - match_i x)"
  define C where "C = {x \<in> set ms. covers x m}"
  have fin: "finite (w ` C)" and ne: "w ` C \<noteq> {}"
    using assms by (auto simp: C_def)
  from Max_in[OF fin ne] obtain o2 where o2: "o2 \<in> C" "w o2 = Max (w ` C)"
    by auto
  have "\<not> is_strict_substring ms o2"
  proof
    assume "is_strict_substring ms o2"
    then obtain o3 where o3: "o3 \<in> set ms" "covers o3 o2"
      by (auto simp: iss_covers)
    with o2 have c3: "o3 \<in> C"
      by (auto simp: C_def intro: covers_trans)
    have "w o2 < w o3"
      using o3(2) o2(1) unfolding w_def C_def covers_def by auto
    moreover have "w o3 \<le> Max (w ` C)"
      using c3 fin by (simp add: Max_ge)
    ultimately show False using o2(2) by simp
  qed
  with o2(1) show ?thesis by (auto simp: C_def)
qed

lemma remove_if_loop_filter:
  assumes "r \<le> k" "k \<le> length v" "length v = length ms"
    and "take r v = filter (\<lambda>m. \<not> is_strict_substring ms m) (take k ms)"
    and "drop k v = drop k ms"
    and "\<forall>x\<in>set v. \<exists>y\<in>set ms. match_i x = match_i y \<and> match_j x = match_j y"
  shows "(case remove_if_loop v r k of (v', r') \<Rightarrow> take r' v') = filter (\<lambda>m. \<not> is_strict_substring ms m) ms"
  using assms
proof (induction v r k rule: remove_if_loop.induct)
  case (1 v r k)
  note rk = "1.prems"(1) and kv = "1.prems"(2) and len = "1.prems"(3) and tk0 = "1.prems"(4)
    and dk = "1.prems"(5) and rng = "1.prems"(6)
  show ?case
  proof (cases "k < length v")
    case False
    then have "take k ms = ms" using len kv by simp
    moreover have "remove_if_loop v r k = (v, r)"
      using False by (subst remove_if_loop.simps) simp
    ultimately show ?thesis using tk0 by simp
  next
    case True
    have kms: "k < length ms" using True len by simp
    have vk: "v ! k = ms ! k"
      using True kms dk by (metis nth_via_drop Cons_nth_drop_Suc)
    have tk: "take (Suc k) ms = take k ms @ [ms ! k]"
      using kms by (simp add: take_Suc_conv_app_nth)
    have dk': "drop (Suc k) v = drop (Suc k) ms"
      using dk by (metis drop_Suc tl_drop)
    have agree: "is_strict_substring v (ms ! k) = is_strict_substring ms (ms ! k)"
    proof
      assume "is_strict_substring v (ms ! k)"
      then obtain x where x: "x \<in> set v" "covers x (ms ! k)" by (auto simp: iss_covers)
      with rng obtain y where "y \<in> set ms" "match_i x = match_i y" "match_j x = match_j y"
        by blast
      with x(2) show "is_strict_substring ms (ms ! k)"
        by (auto simp: iss_covers covers_def)
    next
      assume "is_strict_substring ms (ms ! k)"
      then obtain o1 where "o1 \<in> set ms" "covers o1 (ms ! k)" by (auto simp: iss_covers)
      from maximal_cover[OF this] obtain o2 where o2: "o2 \<in> set ms" "covers o2 (ms ! k)"
        "\<not> is_strict_substring ms o2" by blast
      have "set ms = set (take k ms) \<union> set (drop k ms)"
        by (metis append_take_drop_id set_append)
      with o2(1) consider "o2 \<in> set (take k ms)" | "o2 \<in> set (drop k ms)" by blast
      then have "o2 \<in> set v"
      proof cases
        case 1
        with o2(3) have "o2 \<in> set (take r v)" by (simp add: tk0)
        then show ?thesis by (rule in_set_takeD)
      next
        case 2
        then have "o2 \<in> set (drop k v)" by (simp add: dk)
        then show ?thesis by (rule in_set_dropD)
      qed
      with o2(2) show "is_strict_substring v (ms ! k)" by (auto simp: iss_covers)
    qed
    show ?thesis
    proof (cases "is_strict_substring v (v ! k)")
      case rm: True
      have a: "take r v = filter (\<lambda>m. \<not> is_strict_substring ms m) (take (k + 1) ms)"
        using rm agree vk tk0 by (simp add: tk)
      have b: "drop (k + 1) v = drop (k + 1) ms"
        using dk' by simp
      have c: "r \<le> k + 1" "k + 1 \<le> length v" using rk True by simp_all
      have "(case remove_if_loop v r (k + 1) of (v', r') \<Rightarrow> take r' v')
            = filter (\<lambda>m. \<not> is_strict_substring ms m) ms"
        by (rule "1.IH"(1)[OF True rm c len a b rng])
      moreover have "remove_if_loop v r k = remove_if_loop v r (k + 1)"
        using True rm by (subst remove_if_loop.simps) simp
      ultimately show ?thesis by simp
    next
      case keep: False
      have rl: "r < length v" using True rk by simp
      have a: "take (r + 1) (v[r := v ! k]) = filter (\<lambda>m. \<not> is_strict_substring ms m) (take (k + 1) ms)"
        using keep agree vk tk0 rl by (simp add: tk take_Suc_conv_app_nth)
      have b: "drop (k + 1) (v[r := v ! k]) = drop (k + 1) ms"
        using dk' rk by simp
      have c: "r + 1 \<le> k + 1" "k + 1 \<le> length (v[r := v ! k])" "length (v[r := v ! k]) = length ms"
        using rk True len by simp_all
      have d: "\<forall>x\<in>set (v[r := v ! k]). \<exists>y\<in>set ms. match_i x = match_i y \<and> match_j x = match_j y"
      proof
        fix x assume "x \<in> set (v[r := v ! k])"
        then have "x \<in> insert (v ! k) (set v)" using set_update_subset_insert by fastforce
        then have "x \<in> set v" using True by auto
        with rng show "\<exists>y\<in>set ms. match_i x = match_i y \<and> match_j x = match_j y" by blast
      qed
      have "(case remove_if_loop (v[r := v ! k]) (r + 1) (k + 1) of (v', r') \<Rightarrow> take r' v')
            = filter (\<lambda>m. \<not> is_strict_substring ms m) ms"
        by (rule "1.IH"(2)[OF True keep c a b d])
      moreover have "remove_if_loop v r k = remove_if_loop (v[r := v ! k]) (r + 1) (k + 1)"
        using True keep by (subst remove_if_loop.simps) simp
      ultimately show ?thesis by simp
    qed
  qed
qed

lemma erase_filter: "erase_strict_substrings ms = filter (\<lambda>m. \<not> is_strict_substring ms m) ms"
proof -
  have "(case remove_if_loop ms 0 0 of (v', r') \<Rightarrow> take r' v') = filter (\<lambda>m. \<not> is_strict_substring ms m) ms"
    by (rule remove_if_loop_filter) auto
  then show ?thesis by (simp add: erase_strict_substrings_def)
qed


section \<open>The contract of the sort\<close>

lemma sort_contract_set: "sort_contract srt \<Longrightarrow> set (srt ms) = set ms"
  unfolding sort_contract_def by (metis set_mset_mset)

lemma sort_contract_Nil: "sort_contract srt \<Longrightarrow> srt [] = []"
  unfolding sort_contract_def by (metis mset_zero_iff)

lemma sort_contract_single: "sort_contract srt \<Longrightarrow> srt [m] = [m]"
  unfolding sort_contract_def by (metis mset_single_iff_right mset.simps(1) mset.simps(2) add_mset_add_single)

section \<open>Dates without separators\<close>
















lemma spans_10a:
  "date_spans 10 4 8 = [(0,3),(0,4),(0,5),(0,6),(0,7),(1,4),(1,5),(1,6),(1,7),(1,8),(2,5),(2,6),
     (2,7),(2,8),(2,9),(3,6),(3,7),(3,8),(3,9),(4,7),(4,8),(4,9),(5,8),(5,9),(6,9)]"
  by code_simp

lemma spans_10b:
  "date_spans 10 6 10 = [(0,5),(0,6),(0,7),(0,8),(0,9),(1,6),(1,7),(1,8),(1,9),(2,7),(2,8),(2,9),
     (3,8),(3,9),(4,9)]"
  by code_simp

lemma cands_2015: "date_candidates ''2015'' = Some [\<lparr>year = 2005, month = 1, day = 20\<rparr>]"
  by code_simp

lemma without_2015:
  "collect (map (date_no_separator_at e ''2015_06_04'') (date_spans 10 4 8))
     = Some [Match 0 3 ''2015'' (DateMatch [] 2005 1 20 False)]"
  unfolding spans_10a
  by (simp add: collect_def date_no_separator_at_def substr_def maybe_date_no_separator_def
      is_digit_def cands_2015 best_candidate_def min_element_def)

lemma with_2015:
  "collect (map (date_with_separator_at ''2015_06_04'') (date_spans 10 6 10))
     = Some [Match 0 9 ''2015_06_04'' (DateMatch ''_'' 2015 4 6 False),
             Match 1 8 ''015_06_0'' (DateMatch ''_'' 2000 6 15 False),
             Match 1 9 ''015_06_04'' (DateMatch ''_'' 2004 6 15 False),
             Match 2 8 ''15_06_0'' (DateMatch ''_'' 2000 6 15 False),
             Match 2 9 ''15_06_04'' (DateMatch ''_'' 2004 6 15 False),
             Match 3 8 ''5_06_0'' (DateMatch ''_'' 2000 6 5 False),
             Match 3 9 ''5_06_04'' (DateMatch ''_'' 2004 6 5 False)]"
  unfolding spans_10b
  by (simp add: collect_def date_with_separator_at_def substr_def maybe_date_with_separator_def
      is_digit_def is_separator_def stou_def digit_val_def map_ints_to_dmy_def map_ints_to_dm_def
      DATE_MIN_YEAR_def DATE_MAX_YEAR_def two_to_four_digit_year_def)

lemma date_match_2015:
  assumes "sort_contract (std_sort e)"
  shows "date_match e ''2015_06_04'' = Some [Match 0 9 ''2015_06_04'' (DateMatch ''_'' 2015 4 6 False)]"
proof -
  have l10: "length ''2015_06_04'' = 10" by simp
  have "date_match e ''2015_06_04''
      = Some (sorted_matches e [Match 0 9 ''2015_06_04'' (DateMatch ''_'' 2015 4 6 False)])"
    unfolding date_match_def l10 without_2015 with_2015
    by (simp add: erase_filter is_strict_substring_def)
  then show ?thesis
    using assms by (simp add: sorted_matches_def sort_contract_single)
qed









lemma not_match_less: "\<not> match_less b a \<longleftrightarrow> match_key a \<le> match_key b"
  unfolding match_less_def match_key_def less_eq_prod_def by auto

lemma sort_key_contract: "sort_contract (sort_key match_key)"
proof -
  have "sorted_wrt (\<lambda>a b. \<not> match_less b a) (sort_key match_key ms)" for ms :: "'a Match list"
    using sorted_sort_key[of match_key ms]
    unfolding not_match_less sorted_map by simp
  then show ?thesis
    unfolding sort_contract_def by simp
qed

lemma example_env_contract: "sort_contract (std_sort example_env)"
  by (simp add: example_env_def sort_key_contract)




text \<open>
  C6. The erase after the two passes keeps the matches in their order and drops exactly
  those whose range is a strict subset of the range of another match; a match is dropped
  exactly when a match that survives covers it. The password 2015_06_04 yields one date
  match, over the whole string.
\<close>

theorem date_overlap_pruning:
  "erase_strict_substrings ms = filter (\<lambda>m. \<not> (\<exists>other\<in>set ms. covers other m)) ms
   \<and> (\<forall>m\<in>set ms. (m \<notin> set (erase_strict_substrings ms))
                    = (\<exists>other\<in>set (erase_strict_substrings ms). covers other m))
   \<and> (sort_contract (std_sort e) \<longrightarrow>
        date_match e ''2015_06_04''
          = Some [Match 0 9 ''2015_06_04'' (DateMatch ''_'' 2015 4 6 False)])"
proof (intro conjI ballI impI)
  show f: "erase_strict_substrings ms = filter (\<lambda>m. \<not> (\<exists>other\<in>set ms. covers other m)) ms"
    by (simp add: erase_filter iss_covers)
  show "(m \<notin> set (erase_strict_substrings ms))
          = (\<exists>other\<in>set (erase_strict_substrings ms). covers other m)" if m: "m \<in> set ms" for m
  proof
    assume "m \<notin> set (erase_strict_substrings ms)"
    with m obtain o1 where "o1 \<in> set ms" "covers o1 m" by (auto simp: f)
    from maximal_cover[OF this] obtain o2 where "o2 \<in> set ms" "covers o2 m"
      "\<not> is_strict_substring ms o2" by blast
    then show "\<exists>other\<in>set (erase_strict_substrings ms). covers other m"
      by (auto simp: erase_filter)
  next
    assume "\<exists>other\<in>set (erase_strict_substrings ms). covers other m"
    then show "m \<notin> set (erase_strict_substrings ms)" by (auto simp: f)
  qed
  show "date_match e ''2015_06_04'' = Some [Match 0 9 ''2015_06_04'' (DateMatch ''_'' 2015 4 6 False)]"
    if "sort_contract (std_sort e)"
    using that by (rule date_match_2015)
qed

theorem date_overlap_pruning_witness:
  "sort_contract (std_sort example_env)
   \<and> date_match example_env ''2015_06_04''
       = Some [Match 0 9 ''2015_06_04'' (DateMatch ''_'' 2015 4 6 False)]"
  using date_overlap_pruning [of "[]" example_env] example_env_contract by blast

section \<open>The regex matcher and the repeat matcher\<close>

lemma regex_match_loop_whole:
  "regex_match_loop password tag regex 0 =
     (if rx_match regex password
      then [Match 0 (length password - 1) password (RegexMatch tag [password])] else [])"
proof (cases "rx_match regex password")
  case False
  then show ?thesis by (subst regex_match_loop.simps) simp
next
  case True
  have "\<not> rx_match regex (drop (length password) password)"
    using rx_match_nonempty[of regex "[]"] by auto
  then have "regex_match_loop password tag regex (length password) = []"
    by (subst regex_match_loop.simps) simp
  with True show ?thesis
    by (subst regex_match_loop.simps) (simp add: Let_def)
qed

text \<open>
  C3. The loop of \<open>regex_match\<close> calls \<open>std::regex_match\<close>, which succeeds only when
  the expression matches all of the rest of the password. A year inside a longer password
  gives no match; only a password that is a year as a whole gives one.
\<close>

theorem regex_match_inner_year:
  "regex_match example_env ''a1991'' REGEXEN = []
   \<and> str_find ''a1991'' ''1991'' = Some 1
   \<and> regex_match example_env ''1991'' REGEXEN = [Match 0 3 ''1991'' (RegexMatch RECENT_YEAR [''1991''])]"
  by code_simp

text \<open>
  C7. In a turn of the repeat loop that finds a match, the base token is not empty and
  strictly shorter than the token, which is a substring of the password; the turn (when
  the regex library returns) calls \<open>omnimatch\<close> on the base token and goes on behind the
  match. The lengths decrease
  along these calls, which is the termination proof of \<open>omnimatch\<close> and
  \<open>repeat_match_from\<close> above.
\<close>

theorem repeat_base_token_shorter:
  assumes "lastIndex < length password"
    and "repeat_step password lastIndex = Found i j token base_token"
  shows "base_token \<noteq> [] \<and> length base_token < length token \<and> length token \<le> length password
         \<and> length base_token < length password
         \<and> lastIndex \<le> i \<and> i < j \<and> j < length password \<and> token = substr password i (j - i + 1)
         \<and> repeat_match_from e password lastIndex =
             (if repeat_searches_fail e password lastIndex then None
              else
                (case omnimatch e base_token [] of
                   None \<Rightarrow> None
                 | Some sub_matches \<Rightarrow>
                     (case repeat_match_from e password (j + 1) of
                        None \<Rightarrow> None
                      | Some rest \<Rightarrow>
                          Some (Match i j token
                                  (RepeatMatch base_token
                                     (fst (most_guessable_match_sequence e base_token sub_matches False))
                                     (snd (most_guessable_match_sequence e base_token sub_matches False))
                                     (length token div length base_token))
                                # rest))))"
proof -
  from repeat_step_Found[OF assms(2)] have
    a: "lastIndex \<le> i" "i < j" "j < length password" "token = substr password i (j - i + 1)"
       "base_token \<noteq> []" "2 * length base_token \<le> length token"
    by auto
  have t: "length token \<le> length password" unfolding a(4) substr_def by simp
  from a(5) have "0 < length base_token" by simp
  with a(6) t have b: "length base_token < length token" "length base_token < length password"
    by linarith+
  have "repeat_match_from e password lastIndex =
             (if repeat_searches_fail e password lastIndex then None
              else
                (case omnimatch e base_token [] of
                   None \<Rightarrow> None
                 | Some sub_matches \<Rightarrow>
                     (case repeat_match_from e password (j + 1) of
                        None \<Rightarrow> None
                      | Some rest \<Rightarrow>
                          Some (Match i j token
                                  (RepeatMatch base_token
                                     (fst (most_guessable_match_sequence e base_token sub_matches False))
                                     (snd (most_guessable_match_sequence e base_token sub_matches False))
                                     (length token div length base_token))
                                # rest))))"
    using assms a(5) by (subst repeat_match_from.simps) (simp add: Let_def split: option.splits)
  with a b t show ?thesis by blast
qed

lemma repeat_step_abab: "repeat_step ''abab'' 0 = Found 0 3 ''abab'' ''ab''"
  by code_simp

theorem repeat_base_token_shorter_witness:
  "repeat_step ''abab'' 0 = Found 0 3 ''abab'' ''ab''
   \<and> length ''ab'' < length ''abab''
   \<and> repeat_match_from example_env ''abab'' 0 =
       (case omnimatch example_env ''ab'' [] of
          None \<Rightarrow> None
        | Some sub_matches \<Rightarrow>
            (case repeat_match_from example_env ''abab'' (3 + 1) of
               None \<Rightarrow> None
             | Some rest \<Rightarrow>
                 Some (Match 0 3 ''abab''
                         (RepeatMatch ''ab''
                            (fst (most_guessable_match_sequence example_env ''ab'' sub_matches False))
                            (snd (most_guessable_match_sequence example_env ''ab'' sub_matches False))
                            (length ''abab'' div length ''ab''))
                       # rest)))"
proof -
  have l: "0 < length ''abab''" by simp
  have f: "\<not> repeat_searches_fail example_env ''abab'' 0"
    by (simp add: repeat_searches_fail_def example_env_def split: option.splits)
  from repeat_base_token_shorter[OF l repeat_step_abab, of example_env] repeat_step_abab f
  show ?thesis by simp
qed

lemma find_None_upt: "List.find P xs = None \<longleftrightarrow> \<not> list_ex P xs"
  by (auto simp: find_None_iff list_ex_iff)

lemma unit_lengths_ex: "list_ex (unit_repeats s p) (unit_lengths s p) \<longleftrightarrow> (\<exists>k. unit_repeats s p k)"
proof
  assume "list_ex (unit_repeats s p) (unit_lengths s p)"
  then show "\<exists>k. unit_repeats s p k" by (auto simp: list_ex_iff)
next
  assume "\<exists>k. unit_repeats s p k"
  then obtain k where k: "unit_repeats s p k" by blast
  then have "k \<in> set (unit_lengths s p)" by (auto simp: unit_repeats_def unit_lengths_def)
  with k show "list_ex (unit_repeats s p) (unit_lengths s p)" by (auto simp: list_ex_iff)
qed

lemma regex_search_at_None:
  "regex_search_at greedy s start = None
     \<longleftrightarrow> \<not> list_ex (\<lambda>p. list_ex (unit_repeats s p) (unit_lengths s p)) [start..<length s]"
proof (cases "List.find (\<lambda>p. list_ex (unit_repeats s p) (unit_lengths s p)) [start..<length s]")
  case None
  then have "\<not> list_ex (\<lambda>p. list_ex (unit_repeats s p) (unit_lengths s p)) [start..<length s]"
    by (metis find_None_upt)
  then show ?thesis by (simp add: regex_search_at_def None)
next
  case (Some p)
  then have ex: "list_ex (unit_repeats s p) (unit_lengths s p)" and "p \<in> set [start..<length s]"
    unfolding find_Some_iff by auto
  then have l: "list_ex (\<lambda>p. list_ex (unit_repeats s p) (unit_lengths s p)) [start..<length s]"
    unfolding list_ex_iff by blast
  have "list_ex (unit_repeats s p) (rev (unit_lengths s p))"
    using ex by (simp add: list_ex_iff)
  with ex have "List.find (unit_repeats s p) (if greedy then rev (unit_lengths s p) else unit_lengths s p) \<noteq> None"
    by (simp add: find_None_upt)
  with Some l show ?thesis by (auto simp: regex_search_at_def)
qed

lemma regex_search_at_both:
  "regex_search_at True s start = None \<longleftrightarrow> regex_search_at False s start = None"
  by (simp add: regex_search_at_None)


lemma count_reps_replicate:
  assumes "u \<noteq> []"
  shows "count_reps u (concat (replicate n u)) = n"
proof (induction n)
  case 0
  show ?case using assms by (subst count_reps.simps) auto
next
  case (Suc n)
  then show ?case using assms by (subst count_reps.simps) simp
qed



lemma concat_replicate_single: "concat (replicate n [c]) = replicate n c"
  by (induction n) auto

lemma search_positions_agree:
  assumes "regex_search_at True s start = Some g" "regex_search_at False s start = Some l"
  shows "position g = position l"
proof -
  from regex_search_at_Some[OF assms(1)] obtain p k where
    g: "start \<le> p" "unit_repeats s p k" "g = match_with_unit s start p k"
       "\<forall>q. start \<le> q \<and> q < p \<longrightarrow> \<not> list_ex (unit_repeats s q) (unit_lengths s q)" by blast
  from regex_search_at_Some[OF assms(2)] obtain p' k' where
    l: "start \<le> p'" "unit_repeats s p' k'" "l = match_with_unit s start p' k'"
       "\<forall>q. start \<le> q \<and> q < p' \<longrightarrow> \<not> list_ex (unit_repeats s q) (unit_lengths s q)" by blast
  have "list_ex (unit_repeats s p) (unit_lengths s p)" "list_ex (unit_repeats s p') (unit_lengths s p')"
    using g(2) l(2) unfolding unit_lengths_ex by blast+
  with g(1,4) l(1,4) have "p = p'" by (metis linorder_neqE_nat)
  then show ?thesis
    unfolding g(3) l(3) by (simp add: match_with_unit_def Let_def)
qed

lemma repeat_step_single_char:
  assumes "2 \<le> n" "dot c"
  shows "repeat_step (replicate n c) 0 = Found 0 (n - 1) (replicate n c) [c]"
proof -
  define s where "s = replicate n c"
  have ls: "length s = n" by (simp add: s_def)
  have u1: "unit_repeats s 0 1"
    using assms unfolding unit_repeats_def substr_def s_def
    by (cases n) (auto simp: take_Suc_conv_app_nth)
  then have ex0: "list_ex (unit_repeats s 0) (unit_lengths s 0)"
    unfolding unit_lengths_ex by blast
  have "0 \<in> set [0..<length s]" using assms ls by simp
  with ex0 have "list_ex (\<lambda>p. list_ex (unit_repeats s p) (unit_lengths s p)) [0..<length s]"
    unfolding list_ex_iff by blast
  then obtain l where l: "regex_search_at False s 0 = Some l"
    using regex_search_at_None[of False s 0] by auto
  with regex_search_at_both[of s 0] obtain g where g: "regex_search_at True s 0 = Some g"
    by auto
  from regex_search_at_Some[OF l] obtain p k where
    pk: "unit_repeats s p k" "l = match_with_unit s 0 p k"
        "\<forall>q. 0 \<le> q \<and> q < p \<longrightarrow> \<not> list_ex (unit_repeats s q) (unit_lengths s q)"
        "\<forall>k'. unit_repeats s p k' \<longrightarrow> (if False then k' \<le> k else k \<le> k')" by blast
  have p0: "p = 0" using pk(3) ex0 by (cases p) auto
  have k1: "k = 1" using pk(1,4) u1 unfolding p0 by (auto simp: unit_repeats_def dest: le_antisym)
  have d1: "drop (Suc 0) s = concat (replicate (n - Suc 0) [c])"
    unfolding s_def concat_replicate_single by simp
  have t1: "take (Suc 0) s = [c]"
    using assms unfolding s_def by (cases n) auto
  have cr: "count_reps [c] (drop (Suc 0) s) = n - Suc 0"
    unfolding d1 by (rule count_reps_replicate) simp
  have lrec: "position l = 0" "str0 l = s" "str1 l = [c]"
    using assms(1) unfolding pk(2) p0 k1 match_with_unit_def Let_def
    by (simp_all add: substr_def t1 cr ls)
  from regex_search_at_Some[OF g] obtain p' k' where
    g': "0 \<le> p'" "unit_repeats s p' k'" "g = match_with_unit s 0 p' k'" by blast
  from match_with_unit_props(4)[OF g'(2) g'(1)] g'(3) obtain L where
    "str0 g = substr s p' L" by blast
  then have "length (str0 g) \<le> length s" by (simp add: substr_def)
  then have tie: "\<not> length (str0 g) > length (str0 l)" using lrec by simp
  have "repeat_step s 0 = found 0 l (str1 l)"
    using tie by (simp add: repeat_step_def g l Let_def)
  then show ?thesis
    unfolding s_def[symmetric] by (simp add: found_def lrec ls)
qed

text \<open>
  C10 (as amended). When the greedy match at a scan position is not strictly longer than the lazy
  one, the turn takes the lazy match: token and base token are the lazy match and its
  captured unit, which is the shortest unit that repeats at the position of the match
  (both searches find the same position). For a run of one repeated character other than
  a line terminator the base token is that character and the match is the whole run.
\<close>

theorem repeat_lazy_on_ties:
  assumes "regex_search_at True password lastIndex = Some greedy_match"
    and "regex_search_at False password lastIndex = Some lazy_match"
    and "length (str0 greedy_match) \<le> length (str0 lazy_match)"
  shows "repeat_step password lastIndex = found lastIndex lazy_match (str1 lazy_match)
         \<and> position greedy_match = position lazy_match
         \<and> unit_repeats password (lastIndex + position lazy_match) (length (str1 lazy_match))
         \<and> (\<forall>k. unit_repeats password (lastIndex + position lazy_match) k
                \<longrightarrow> length (str1 lazy_match) \<le> k)
         \<and> (2 \<le> n \<and> dot c \<longrightarrow>
               repeat_step (replicate n c) 0 = Found 0 (n - 1) (replicate n c) [c])"
proof -
  have a: "repeat_step password lastIndex = found lastIndex lazy_match (str1 lazy_match)"
    using assms by (simp add: repeat_step_def Let_def)
  from regex_search_at_Some[OF assms(2)] obtain p k where
    pk: "lastIndex \<le> p" "unit_repeats password p k" "lazy_match = match_with_unit password lastIndex p k"
        "\<forall>k'. unit_repeats password p k' \<longrightarrow> (if False then k' \<le> k else k \<le> k')" by blast
  from match_with_unit_props(1,3)[OF pk(2) pk(1)] pk(3) have
    m: "position lazy_match = p - lastIndex" "length (str1 lazy_match) = k" by auto
  have pos: "lastIndex + position lazy_match = p" using m(1) pk(1) by simp
  have b: "unit_repeats password (lastIndex + position lazy_match) (length (str1 lazy_match))"
    "\<forall>k. unit_repeats password (lastIndex + position lazy_match) k \<longrightarrow> length (str1 lazy_match) \<le> k"
    unfolding pos m(2) using pk(2,4) by auto
  from a b search_positions_agree[OF assms(1,2)] repeat_step_single_char[of n c]
  show ?thesis by blast
qed

lemma search_aaaa:
  "regex_search_at True ''aaaa'' 0 = Some \<lparr>position = 0, str0 = ''aaaa'', str1 = ''aa''\<rparr>"
  "regex_search_at False ''aaaa'' 0 = Some \<lparr>position = 0, str0 = ''aaaa'', str1 = ''a''\<rparr>"
  by code_simp+

theorem repeat_lazy_on_ties_witness:
  "regex_search_at True ''aaaa'' 0 = Some \<lparr>position = 0, str0 = ''aaaa'', str1 = ''aa''\<rparr>
   \<and> regex_search_at False ''aaaa'' 0 = Some \<lparr>position = 0, str0 = ''aaaa'', str1 = ''a''\<rparr>
   \<and> repeat_step ''aaaa'' 0 = Found 0 3 ''aaaa'' ''a''
   \<and> repeat_step (replicate 5 CHR ''a'') 0 = Found 0 (5 - 1) (replicate 5 CHR ''a'') ''a''"
proof -
  have d: "dot CHR ''a''" by (simp add: dot_def)
  have t: "length (str0 \<lparr>position = 0, str0 = ''aaaa'', str1 = ''aa''\<rparr>)
             \<le> length (str0 \<lparr>position = 0, str0 = ''aaaa'', str1 = ''a''\<rparr>)" by simp
  from repeat_lazy_on_ties[OF search_aaaa t, of 5 "CHR ''a''"] d search_aaaa
  show ?thesis by (simp add: found_def)
qed

text \<open>
  A run of four line feeds: \<open>.\<close> does not match a line feed, neither search finds a
  match, and the repeat matcher returns nothing for the run.
\<close>

theorem repeat_lazy_on_ties_counterexample:
  "\<not> dot (CHR 0x0A)
   \<and> regex_search_at True (replicate 4 (CHR 0x0A)) 0 = None
   \<and> regex_search_at False (replicate 4 (CHR 0x0A)) 0 = None
   \<and> repeat_step (replicate 4 (CHR 0x0A)) 0 = Break
   \<and> repeat_match_from example_env (replicate 4 (CHR 0x0A)) 0 = Some []"
  by code_simp

section \<open>Every match lies in the password\<close>

lemma match_ok_length: "match_ok password m \<Longrightarrow> length (match_token m) = match_j m - match_i m + 1"
  by (auto simp: match_ok_def substr_def)

lemma sorted_matches_set: "sort_contract (std_sort e) \<Longrightarrow> set (sorted_matches e ms) = set ms"
  by (simp add: sorted_matches_def sort_contract_set)

lemma dictionary_match_ok:
  assumes "sort_contract (std_sort e)" "m \<in> set (dictionary_match e password rd)"
  shows "match_ok password m"
  using assms(2) unfolding dictionary_match_def Let_def sorted_matches_set[OF assms(1)]
  by (auto simp: match_ok_def split: option.splits)

lemma rev_substr:
  assumes "i \<le> j" "j < length pw"
  shows "rev (substr (rev pw) i (j - i + 1)) = substr pw (length pw - 1 - j) (j - i + 1)"
proof -
  define n where "n = j - i + 1"
  have n: "i + n \<le> length pw" "length pw - i - n = length pw - 1 - j"
    using assms by (auto simp: n_def)
  have "take n (drop i (rev pw)) = take n (rev (take (length pw - i) pw))"
    using assms by (simp add: rev_take)
  also have "\<dots> = rev (drop (length pw - i - n) (take (length pw - i) pw))"
    using n(1) by (simp add: rev_drop)
  finally have "rev (take n (drop i (rev pw))) = drop (length pw - i - n) (take (length pw - i) pw)"
    by simp
  also have "\<dots> = take n (drop (length pw - i - n) pw)"
    using n(1) by (simp add: drop_take)
  finally show ?thesis
    unfolding substr_def n_def[symmetric] n(2) .
qed

lemma reverse_back_ok:
  assumes "match_ok (reverse_string password) m"
  shows "match_ok password (reverse_back password m)"
proof -
  from assms have a: "match_i m \<le> match_j m" "match_j m < length password"
    "match_token m = substr (rev password) (match_i m) (match_j m - match_i m + 1)"
    by (auto simp: match_ok_def reverse_string_def)
  have d: "length password - 1 - match_i m - (length password - 1 - match_j m) = match_j m - match_i m"
    using a(1,2) by simp
  have o: "length password - 1 - match_j m \<le> length password - 1 - match_i m"
    "length password - 1 - match_i m < length password"
    using a(1,2) by arith+
  show ?thesis
    unfolding match_ok_def reverse_back_def reverse_string_def Match.sel a(3) d
    using o rev_substr[OF a(1,2)] by simp
qed

lemma reverse_dictionary_match_ok:
  assumes "sort_contract (std_sort e)" "m \<in> set (reverse_dictionary_match e password rd)"
  shows "match_ok password m"
proof -
  from assms(2) obtain m0 where m0: "m0 \<in> set (dictionary_match e (reverse_string password) rd)"
    "m = reverse_back password m0"
    unfolding reverse_dictionary_match_def Let_def sorted_matches_set[OF assms(1)] by auto
  from dictionary_match_ok[OF assms(1) m0(1)] show ?thesis
    unfolding m0(2) by (rule reverse_back_ok)
qed

lemma regex_match_ok:
  assumes "sort_contract (std_sort e)" "m \<in> set (regex_match e password regexen)"
  shows "match_ok password m"
proof -
  from assms(2) obtain tag regex where "m \<in> set (regex_match_loop password tag regex 0)"
    unfolding regex_match_def sorted_matches_set[OF assms(1)] by auto
  then have "rx_match regex password" "m = Match 0 (length password - 1) password (RegexMatch tag [password])"
    unfolding regex_match_loop_whole by (auto split: if_splits)
  moreover from this(1) have "password \<noteq> []" by (rule rx_match_nonempty)
  ultimately show ?thesis
    by (cases password) (auto simp: match_ok_def substr_def)
qed

lemma update_ok:
  assumes "i \<le> j" "j < length password" "m \<in> set (update password i j delta)"
  shows "match_ok password m"
  using assms by (auto simp: update_def match_ok_def Let_def split: if_splits)

lemma sequence_foldl_ok:
  assumes "foldl (sequence_step password) (i, mld, result) ks = (i', mld', result')"
    and "\<forall>k\<in>set ks. 1 \<le> k \<and> k < length password" "sorted_wrt (<) ks"
    and "\<forall>k\<in>set ks. i < k" "i < length password"
    and "\<forall>m\<in>set result. match_ok password m"
  shows "(\<forall>m\<in>set result'. match_ok password m) \<and> i' < length password"
  using assms
proof (induction ks arbitrary: i mld result)
  case Nil
  then show ?case by simp
next
  case (Cons k ks)
  obtain i1 mld1 result1 where s: "sequence_step password (i, mld, result) k = (i1, mld1, result1)"
    by (cases "sequence_step password (i, mld, result) k") auto
  have k: "1 \<le> k" "k < length password" "i < k" using Cons.prems by auto
  have i1: "i1 = i \<or> i1 = k - 1"
    using s by (auto simp: sequence_step_def Let_def split: if_splits)
  have r1: "\<forall>m\<in>set result1. match_ok password m"
  proof
    fix m assume "m \<in> set result1"
    then consider "m \<in> set result" | d where "m \<in> set (update password i (k - 1) d)"
      using s by (auto simp: sequence_step_def Let_def split: if_splits)
    then show "match_ok password m"
    proof cases
      case 1
      then show ?thesis using Cons.prems(6) by blast
    next
      case 2
      show ?thesis by (rule update_ok[OF _ _ 2]) (use k in auto)
    qed
  qed
  have "\<forall>k'\<in>set ks. i1 < k'" using i1 Cons.prems(3,4) k by auto
  moreover have "i1 < length password" using i1 k Cons.prems(5) by auto
  moreover have "foldl (sequence_step password) (i1, mld1, result1) ks = (i', mld', result')"
    using Cons.prems(1) s by simp
  ultimately show ?case
    using Cons.IH[of i1 mld1 result1] Cons.prems(2,3) r1 by auto
qed

lemma sequence_match_ok:
  fixes m :: "'g Match"
  assumes "m \<in> set (sequence_match password)"
  shows "match_ok password m"
proof -
  from assms have n1: "length password \<noteq> 1"
    by (auto simp: sequence_match_def split: if_splits)
  obtain i' mld' and result' :: "'g Match list" where
    f: "foldl (sequence_step password) (0, None, []) [1..<length password] = (i', mld', result')"
    by (metis prod_cases3)
  show ?thesis
  proof (cases "length password = 0")
    case True
    with assms show ?thesis by (simp add: sequence_match_def)
  next
    case False
    have "(\<forall>m\<in>set result'. match_ok password m) \<and> i' < length password"
      by (rule sequence_foldl_ok[OF f]) (use False in auto)
    moreover from assms n1 f have "m \<in> set result' \<or> (\<exists>d. m \<in> set (update password i' (length password - 1) d))"
      by (auto simp: sequence_match_def split: option.splits)
    ultimately show ?thesis
      using update_ok[of i' "length password - 1" password m] by auto
  qed
qed

lemma spatial_grow_le:
  "j \<le> length password \<Longrightarrow> spatial_grow password graph j l t s = (j', t', s') \<Longrightarrow> j' \<le> length password"
proof (induction password graph j l t s rule: spatial_grow.induct)
  case (1 password graph j last_direction turns shifted_count)
  show ?case
  proof (cases "j < length password")
    case False
    then have "spatial_grow password graph j last_direction turns shifted_count = (j, turns, shifted_count)"
      by (subst spatial_grow.simps) (simp add: Let_def)
    with "1.prems" show ?thesis by simp
  next
    case True
    show ?thesis
    proof (cases "find_adjacent (case map_of graph (substr password (j - 1) 1) of
                     Some a \<Rightarrow> a | None \<Rightarrow> []) (substr password j 1) (- 1)")
      case None
      with True have "spatial_grow password graph j last_direction turns shifted_count = (j, turns, shifted_count)"
        by (subst spatial_grow.simps) (simp add: Let_def)
      with "1.prems" show ?thesis by simp
    next
      case (Some fs)
      obtain fd sh where fs: "fs = (fd, sh)" by (cases fs)
      have "spatial_grow password graph j last_direction turns shifted_count =
            spatial_grow password graph (j + 1)
                  (if last_direction \<noteq> fd then fd else last_direction)
                  (if last_direction \<noteq> fd then turns + 1 else turns)
                  (if sh then shifted_count + 1 else shifted_count)"
        using True Some fs by (subst spatial_grow.simps) (simp add: Let_def)
      with "1.prems"(2) have "spatial_grow password graph (j + 1)
                  (if last_direction \<noteq> fd then fd else last_direction)
                  (if last_direction \<noteq> fd then turns + 1 else turns)
                  (if sh then shifted_count + 1 else shifted_count) = (j', t', s')" by simp
      moreover have "j + 1 \<le> length password" using True by simp
      ultimately show ?thesis
        using "1.IH"[OF refl refl True Some fs[symmetric]] by simp
    qed
  qed
qed

lemma spatial_scan_ok:
  fixes m :: "'g Match"
  shows "m \<in> set (spatial_scan password graph graph_tag i) \<Longrightarrow> match_ok password m"
proof (induction "length password - i" arbitrary: i rule: less_induct)
  case less
  show ?case
  proof (cases "i < length password - 1")
    case False
    then have "spatial_scan password graph graph_tag i = ([] :: 'g Match list)"
      by (subst spatial_scan.simps) simp
    with less.prems show ?thesis by simp
  next
    case True
    define sc :: nat where "sc = (if (graph_tag = QWERTY \<or> graph_tag = DVORAK) \<and> SHIFTED_RX (substr password i 1)
                 then 1 else 0)"
    obtain j turns shifted_count where
      g: "spatial_grow password graph (i + 1) (- 1) 0 sc = (j, turns, shifted_count)"
      by (metis prod_cases3)
    have ge: "i + 1 \<le> j" using g by (rule spatial_grow_ge)
    have le: "j \<le> length password" using True by (intro spatial_grow_le[OF _ g]) simp
    have "spatial_scan password graph graph_tag i =
        (if j - i > 2
         then [Match i (j - 1) (substr password i (j - i)) (SpatialMatch graph_tag turns shifted_count)]
         else []) @ (spatial_scan password graph graph_tag j :: 'g Match list)"
      using True g unfolding sc_def by (subst spatial_scan.simps) simp
    with less.prems consider
      "j - i > 2" "m = Match i (j - 1) (substr password i (j - i)) (SpatialMatch graph_tag turns shifted_count)"
      | "m \<in> set (spatial_scan password graph graph_tag j)"
      by (auto split: if_splits)
    then show ?thesis
    proof cases
      case 1
      have "j - 1 - i + 1 = j - i" "i \<le> j - 1" "j - 1 < length password"
        using ge le by arith+
      with 1 show ?thesis unfolding match_ok_def by simp
    next
      case 2
      have "length password - j < length password - i" using ge True by simp
      from less.hyps[OF this 2] show ?thesis .
    qed
  qed
qed

lemma spatial_match_ok:
  "m \<in> set (spatial_match password gs) \<Longrightarrow> match_ok password m"
  by (auto simp: spatial_match_def spatial_match_helper_def split: if_splits dest: spatial_scan_ok)

lemma repeat_match_from_ok:
  "repeat_match_from e password lastIndex = Some ms \<Longrightarrow> m \<in> set ms \<Longrightarrow> match_ok password m"
proof (induction "length password - lastIndex" arbitrary: lastIndex ms rule: less_induct)
  case less
  show ?case
  proof (cases "lastIndex < length password")
    case False
    with less.prems show ?thesis by (simp add: repeat_match_from.simps[of e password lastIndex])
  next
    case True
    show ?thesis
    proof (cases "repeat_step password lastIndex")
      case Break
      with True less.prems show ?thesis
        by (simp add: repeat_match_from.simps[of e password lastIndex] split: if_splits)
    next
      case Abort
      with True less.prems show ?thesis
        by (simp add: repeat_match_from.simps[of e password lastIndex] split: if_splits)
    next
      case (Found i j token base_token)
      from repeat_step_Found[OF Found] have
        a: "lastIndex \<le> i" "i < j" "j < length password" "token = substr password i (j - i + 1)"
        by auto
      from less.prems(1) True Found obtain p rest where
        r: "repeat_match_from e password (j + 1) = Some rest" "ms = Match i j token p # rest"
        by (auto simp: repeat_match_from.simps[of e password lastIndex] Let_def split: option.splits if_splits)
      from less.prems(2) r(2) consider "m = Match i j token p" | "m \<in> set rest" by auto
      then show ?thesis
      proof cases
        case 1
        then show ?thesis using a by (simp add: match_ok_def)
      next
        case 2
        have "length password - (j + 1) < length password - lastIndex" using a by simp
        from less.hyps[OF this r(1) 2] show ?thesis .
      qed
    qed
  qed
qed

lemma date_spans_mem:
  "(i, j) \<in> set (date_spans n lo hi) \<Longrightarrow> 1 \<le> lo \<Longrightarrow> i \<le> j \<and> j < n"
  by (auto simp: date_spans_def)

lemma collect_mem:
  "collect rs = Some ms \<Longrightarrow> m \<in> set ms \<Longrightarrow> \<exists>x. Some x \<in> set rs \<and> m \<in> set x"
proof (induction rs arbitrary: ms)
  case Nil
  then show ?case by (simp add: collect_def)
next
  case (Cons r rs)
  from Cons.prems(1) obtain x xs where x: "r = Some x" "those rs = Some xs" "ms = x @ concat xs"
    by (auto simp: collect_def split: option.splits)
  then have c: "collect rs = Some (concat xs)" by (simp add: collect_def)
  from Cons.prems(2) x(3) consider "m \<in> set x" | "m \<in> set (concat xs)" by auto
  then show ?case
  proof cases
    case 1
    with x(1) show ?thesis by auto
  next
    case 2
    from Cons.IH[OF c 2] show ?thesis by auto
  qed
qed

lemma date_match_ok:
  assumes "sort_contract (std_sort e)" "date_match e password = Some ms" "m \<in> set ms"
  shows "match_ok password m"
proof -
  from assms(2) obtain without with_sep where
    w: "collect (map (date_no_separator_at e password) (date_spans (length password) 4 8)) = Some without"
       "collect (map (date_with_separator_at password) (date_spans (length password) 6 10)) = Some with_sep"
       "ms = sorted_matches e (erase_strict_substrings (without @ with_sep))"
    by (auto simp: date_match_def split: option.splits)
  from assms(3) have "m \<in> set (without @ with_sep)"
    unfolding w(3) sorted_matches_set[OF assms(1)] erase_filter by auto
  then consider "m \<in> set without" | "m \<in> set with_sep" by auto
  then show ?thesis
  proof cases
    case 1
    from collect_mem[OF w(1) 1] obtain x where
      "Some x \<in> set (map (date_no_separator_at e password) (date_spans (length password) 4 8))"
      and xm: "m \<in> set x" by blast
    then obtain ij where "ij \<in> set (date_spans (length password) 4 8)"
      "date_no_separator_at e password ij = Some x"
      unfolding set_map image_iff by metis
    with xm obtain i j where
      x: "(i, j) \<in> set (date_spans (length password) 4 8)"
         "date_no_separator_at e password (i, j) = Some x" "m \<in> set x"
      by (cases ij) auto
    from date_spans_mem[OF x(1)] have "i \<le> j \<and> j < length password" by simp
    with x(2,3) show ?thesis
      by (auto simp: date_no_separator_at_def Let_def match_ok_def split: if_splits option.splits)
  next
    case 2
    from collect_mem[OF w(2) 2] obtain x where
      "Some x \<in> set (map (date_with_separator_at password) (date_spans (length password) 6 10))"
      and xm: "m \<in> set x" by blast
    then obtain ij where "ij \<in> set (date_spans (length password) 6 10)"
      "date_with_separator_at password ij = Some x"
      unfolding set_map image_iff by metis
    with xm obtain i j where
      x: "(i, j) \<in> set (date_spans (length password) 6 10)"
         "date_with_separator_at password (i, j) = Some x" "m \<in> set x"
      by (cases ij) auto
    from date_spans_mem[OF x(1)] have "i \<le> j \<and> j < length password" by simp
    with x(2,3) show ?thesis
      by (auto simp: date_with_separator_at_def Let_def match_ok_def split: if_splits option.splits)
  qed
qed

section \<open>The l33t matcher\<close>

lemma translate_length:
  assumes "\<forall>kv\<in>set chr_map. length (snd kv) = 1"
  shows "length (translate s chr_map) = length s"
proof -
  have "length (if schar c < 0 then [c]
                else (case map_of chr_map [c] of Some ch \<Rightarrow> ch | None \<Rightarrow> [c])) = 1" for c
    using assms by (auto split: option.splits dest!: map_of_SomeD)
  then show ?thesis
    unfolding translate_def by (induction s) auto
qed

lemma dedup_loop_subset: "set (dedup_loop subs members) \<subseteq> set subs"
  by (induction subs members rule: dedup_loop.induct) auto

lemma erase_first_subset: "set (erase_first P xs) \<subseteq> set xs"
  by (induction xs) auto

lemma sub_alternatives_values:
  assumes "s' \<in> set (sub_alternatives first_key l33t_chr s)" "kv \<in> set s'"
  shows "kv \<in> set s \<or> snd kv = first_key"
  using assms erase_first_subset[of "\<lambda>sub_elt. fst sub_elt = l33t_chr" s]
  by (auto simp: sub_alternatives_def split: if_splits)

lemma sub_alternatives_nonempty: "s' \<in> set (sub_alternatives first_key l33t_chr s) \<Longrightarrow> s \<noteq> [] \<or> s' \<noteq> []"
  by (auto simp: sub_alternatives_def split: if_splits)

lemma enumerate_foldl_values:
  assumes "\<forall>s\<in>set subs. \<forall>kv\<in>set s. snd kv \<in> L"
    and "fst ` set table \<subseteq> L"
    and "s \<in> set (foldl (\<lambda>subs (first_key, l33t_chrs).
              dedup (concat (map (\<lambda>l33t_chr. concat (map (sub_alternatives first_key l33t_chr) subs))
                                 l33t_chrs))) subs table)"
    and "kv \<in> set s"
  shows "snd kv \<in> L"
  using assms
proof (induction table arbitrary: subs)
  case Nil
  then show ?case by auto
next
  case (Cons item table)
  obtain first_key l33t_chrs where item: "item = (first_key, l33t_chrs)" by (cases item)
  define subs' where "subs' = dedup (concat (map (\<lambda>l33t_chr. concat (map (sub_alternatives first_key l33t_chr) subs))
                                 l33t_chrs))"
  have fk: "first_key \<in> L" using Cons.prems(2) item by auto
  have "\<forall>s\<in>set subs'. \<forall>kv\<in>set s. snd kv \<in> L"
  proof (intro ballI)
    fix s' kv' assume a: "s' \<in> set subs'" "kv' \<in> set s'"
    from a(1) obtain l33t_chr s0 where "s0 \<in> set subs" "s' \<in> set (sub_alternatives first_key l33t_chr s0)"
      unfolding subs'_def dedup_def using dedup_loop_subset by fastforce
    with sub_alternatives_values[OF this(2) a(2)] Cons.prems(1) fk show "snd kv' \<in> L" by auto
  qed
  moreover have "fst ` set table \<subseteq> L" using Cons.prems(2) by auto
  moreover have "s \<in> set (foldl (\<lambda>subs (first_key, l33t_chrs).
              dedup (concat (map (\<lambda>l33t_chr. concat (map (sub_alternatives first_key l33t_chr) subs))
                                 l33t_chrs))) subs' table)"
    using Cons.prems(3) unfolding item subs'_def by simp
  ultimately show ?case using Cons.IH Cons.prems(4) by blast
qed

lemma enumerate_values:
  assumes "s \<in> set (enumerate_l33t_subs table)" "kv \<in> set s"
  shows "snd kv \<in> fst ` set table"
  using enumerate_foldl_values[of "[[]]" "fst ` set table" table s kv] assms
  unfolding enumerate_l33t_subs_def by auto

lemma relevant_foldl_keys:
  "fst ` set (foldl (\<lambda>subtable (letter, subs).
              (let relevant_subs = filter (\<lambda>s. str_find password s \<noteq> None) subs
               in if relevant_subs \<noteq> [] \<and> letter \<notin> fst ` set subtable
                  then subtable @ [(letter, relevant_subs)] else subtable)) acc table)
     \<subseteq> fst ` set acc \<union> fst ` set table"
proof (induction table arbitrary: acc)
  case Nil
  show ?case by simp
next
  case (Cons item table)
  obtain letter subs where item: "item = (letter, subs)" by (cases item)
  show ?case
    unfolding item foldl_Cons prod.case
    by (rule subset_trans[OF Cons.IH]) (auto simp: Let_def)
qed

lemma relevant_keys: "fst ` set (relevant_l33t_subtable password table) \<subseteq> fst ` set table"
  using relevant_foldl_keys[of password "[]" table] unfolding relevant_l33t_subtable_def by simp

lemma L33T_TABLE_letters: "\<forall>l\<in>fst ` set L33T_TABLE. length l = 1"
  by (simp add: L33T_TABLE_def)

lemma l33t_subs_length:
  assumes "s \<in> set (enumerate_l33t_subs (relevant_l33t_subtable password L33T_TABLE))"
  shows "length (translate password s) = length password"
proof (rule translate_length, rule ballI)
  fix kv assume "kv \<in> set s"
  from enumerate_values[OF assms this] relevant_keys[of password L33T_TABLE]
  have "snd kv \<in> fst ` set L33T_TABLE" by blast
  with L33T_TABLE_letters show "length (snd kv) = 1" by blast
qed

lemma l33t_one_mem:
  assumes "m \<in> set (l33t_one password s m0)"
  shows "\<exists>d. match_pattern m0 = DictionaryP d
           \<and> match_i m = match_i m0 \<and> match_j m = match_j m0
           \<and> match_token m = substr password (match_i m0) (match_j m0 - match_i m0 + 1)
           \<and> ascii_lower (match_token m) \<noteq> matched_word d
           \<and> match_pattern m = DictionaryP (d\<lparr>l33t := True,
                 sub := filter (\<lambda>(subbed_chr, chr). str_find (match_token m) subbed_chr \<noteq> None) s,
                 sub_display := show_sub (filter (\<lambda>(subbed_chr, chr). str_find (match_token m) subbed_chr \<noteq> None) s)\<rparr>)"
  using assms
  by (cases "match_pattern m0") (auto simp: l33t_one_def Let_def split: if_splits)

lemma l33t_match_mem:
  assumes "sort_contract (std_sort e)" "m \<in> set (l33t_match e password rd table)"
  shows "\<exists>s m0. s \<in> set (enumerate_l33t_subs (relevant_l33t_subtable password table)) \<and> s \<noteq> []
           \<and> m0 \<in> set (dictionary_match e (translate password s) rd)
           \<and> m \<in> set (l33t_one password s m0) \<and> \<not> length (match_token m) \<le> 1"
proof -
  from assms(2) have "\<not> length (match_token m) \<le> 1" and
    "\<exists>s\<in>set (takeWhile (\<lambda>s. s \<noteq> []) (enumerate_l33t_subs (relevant_l33t_subtable password table))).
       \<exists>m0\<in>set (dictionary_match e (translate password s) rd). m \<in> set (l33t_one password s m0)"
    unfolding l33t_match_def Let_def sorted_matches_set[OF assms(1)] by auto
  then obtain s m0 where
    s: "s \<in> set (takeWhile (\<lambda>s. s \<noteq> []) (enumerate_l33t_subs (relevant_l33t_subtable password table)))"
       "m0 \<in> set (dictionary_match e (translate password s) rd)" "m \<in> set (l33t_one password s m0)"
    by blast
  from s(1) have "s \<in> set (enumerate_l33t_subs (relevant_l33t_subtable password table))" "s \<noteq> []"
    by (auto dest: set_takeWhileD)
  with s(2,3) \<open>\<not> length (match_token m) \<le> 1\<close> show ?thesis by blast
qed

lemma l33t_match_ok:
  assumes "sort_contract (std_sort e)" "m \<in> set (l33t_match e password rd L33T_TABLE)"
  shows "match_ok password m"
proof -
  from l33t_match_mem[OF assms] obtain s m0 where
    s: "s \<in> set (enumerate_l33t_subs (relevant_l33t_subtable password L33T_TABLE))"
       "m0 \<in> set (dictionary_match e (translate password s) rd)" "m \<in> set (l33t_one password s m0)"
    by blast
  from dictionary_match_ok[OF assms(1) s(2)] l33t_subs_length[OF s(1)]
  have "match_i m0 \<le> match_j m0" "match_j m0 < length password"
    by (auto simp: match_ok_def)
  with l33t_one_mem[OF s(3)] show ?thesis
    by (auto simp: match_ok_def)
qed

lemma l33t_match_no_subs:
  assumes "sort_contract (std_sort e)" "relevant_l33t_subtable password table = []"
  shows "l33t_match e password rd table = []"
  using assms(1) unfolding l33t_match_def Let_def assms(2) enumerate_l33t_subs_def
  by (simp add: sorted_matches_def sort_contract_Nil)

section \<open>omnimatch\<close>

lemma omnimatch_Some:
  assumes "omnimatch e password ordered_list = Some ms"
  shows "\<exists>repeats dates. repeat_match_from e password 0 = Some repeats
           \<and> date_match e password = Some dates
           \<and> ms = sorted_matches e (matchers_output e password ordered_list repeats dates)"
  using assms unfolding omnimatch.simps[of e password ordered_list] matchers_output_def Let_def
  by (auto split: option.splits)

text \<open>
  C8. Every match of the l33t matcher has a token of at least two characters, which is
  the substring of the password (not of the translated password), is marked \<open>l33t\<close>,
  and its token in lower case differs from the matched word; a dictionary match whose
  token in lower case is the matched word is dropped; with no relevant substitution the
  only substitution map enumerated is the empty one, at which the loop breaks, and there
  is no match.
\<close>

theorem l33t_match_substituted:
  assumes "sort_contract (std_sort e)"
  shows "(\<forall>m\<in>set (l33t_match e password rd table).
            2 \<le> length (match_token m)
            \<and> match_token m = substr password (match_i m) (match_j m - match_i m + 1)
            \<and> (\<exists>d. match_pattern m = DictionaryP d \<and> l33t d
                    \<and> ascii_lower (match_token m) \<noteq> matched_word d))
         \<and> (match_pattern m0 = DictionaryP d0
              \<and> ascii_lower (substr password (match_i m0) (match_j m0 - match_i m0 + 1)) = matched_word d0
              \<longrightarrow> l33t_one password s m0 = [])
         \<and> enumerate_l33t_subs [] = [[]]
         \<and> (relevant_l33t_subtable password table = [] \<longrightarrow> l33t_match e password rd table = [])"
proof (intro conjI ballI impI)
  fix m assume m: "m \<in> set (l33t_match e password rd table)"
  from l33t_match_mem[OF assms m] obtain s m1 where
    s: "m \<in> set (l33t_one password s m1)" "\<not> length (match_token m) \<le> 1" by blast
  from s(2) show "2 \<le> length (match_token m)" by simp
  from l33t_one_mem[OF s(1)] show "match_token m = substr password (match_i m) (match_j m - match_i m + 1)"
    by auto
  from l33t_one_mem[OF s(1)] show "\<exists>d. match_pattern m = DictionaryP d \<and> l33t d
                    \<and> ascii_lower (match_token m) \<noteq> matched_word d"
    by auto
next
  assume "match_pattern m0 = DictionaryP d0
              \<and> ascii_lower (substr password (match_i m0) (match_j m0 - match_i m0 + 1)) = matched_word d0"
  then show "l33t_one password s m0 = []" by (simp add: l33t_one_def)
next
  show "enumerate_l33t_subs [] = [[]]" by (simp add: enumerate_l33t_subs_def)
next
  assume "relevant_l33t_subtable password table = []"
  with assms show "l33t_match e password rd table = []" by (rule l33t_match_no_subs)
qed

lemma l33t_p4ssword:
  "l33t_match example_env ''p4ssword'' [(BUILT_IN ''passwords'', [(''password'', 1)])] L33T_TABLE
     = [Match 0 7 ''p4ssword''
          (DictionaryP \<lparr>dictionary_tag = BUILT_IN ''passwords'', matched_word = ''password'',
             rank = 1, reversed = False, l33t = True, sub = [(''4'', ''a'')],
             sub_display = ''4 -> a''\<rparr>)]"
  by code_simp

theorem l33t_match_substituted_witness:
  "sort_contract (std_sort example_env)
   \<and> l33t_match example_env ''p4ssword'' [(BUILT_IN ''passwords'', [(''password'', 1)])] L33T_TABLE
     = [Match 0 7 ''p4ssword''
          (DictionaryP \<lparr>dictionary_tag = BUILT_IN ''passwords'', matched_word = ''password'',
             rank = 1, reversed = False, l33t = True, sub = [(''4'', ''a'')],
             sub_display = ''4 -> a''\<rparr>)]
   \<and> 2 \<le> length ''p4ssword''
   \<and> ascii_lower ''p4ssword'' \<noteq> ''password''"
proof -
  have "\<forall>m\<in>set (l33t_match example_env ''p4ssword''
                    [(BUILT_IN ''passwords'', [(''password'', 1)])] L33T_TABLE).
          2 \<le> length (match_token m)
          \<and> match_token m = substr ''p4ssword'' (match_i m) (match_j m - match_i m + 1)
          \<and> (\<exists>d. match_pattern m = DictionaryP d \<and> l33t d
                  \<and> ascii_lower (match_token m) \<noteq> matched_word d)"
    using l33t_match_substituted [OF example_env_contract] by blast
  then have "2 \<le> length ''p4ssword'' \<and> ascii_lower ''p4ssword'' \<noteq> ''password''"
    unfolding l33t_p4ssword by simp
  with l33t_p4ssword example_env_contract show ?thesis by blast
qed

text \<open>
  C1. Every match \<open>omnimatch\<close> returns satisfies \<open>i \<le> j < length(password)\<close>, its
  token is \<open>password[i..=j]\<close> and so has length \<open>j - i + 1\<close>; the matches of the
  eight matchers are covered one by one.
\<close>

theorem omnimatch_matches_in_password:
  assumes "sort_contract (std_sort e)" "omnimatch e password ordered_list = Some ms" "m \<in> set ms"
  shows "match_i m \<le> match_j m \<and> match_j m < length password
         \<and> match_token m = substr password (match_i m) (match_j m - match_i m + 1)
         \<and> length (match_token m) = match_j m - match_i m + 1"
proof -
  from omnimatch_Some[OF assms(2)] obtain repeats dates where
    r: "repeat_match_from e password 0 = Some repeats" "date_match e password = Some dates"
       "ms = sorted_matches e (matchers_output e password ordered_list repeats dates)" by blast
  from assms(3) have "m \<in> set (matchers_output e password ordered_list repeats dates)"
    unfolding r(3) sorted_matches_set[OF assms(1)] .
  then consider
      "m \<in> set (dictionary_match e password (ranked_dictionaries_of e ordered_list))"
    | "m \<in> set (reverse_dictionary_match e password (ranked_dictionaries_of e ordered_list))"
    | "m \<in> set (l33t_match e password (ranked_dictionaries_of e ordered_list) L33T_TABLE)"
    | "m \<in> set (spatial_match password (graphs e))"
    | "m \<in> set repeats"
    | "m \<in> set (sequence_match password)"
    | "m \<in> set (regex_match e password REGEXEN)"
    | "m \<in> set dates"
    unfolding matchers_output_def by auto
  then have "match_ok password m"
  proof cases
    case 1 then show ?thesis by (rule dictionary_match_ok[OF assms(1)])
  next
    case 2 then show ?thesis by (rule reverse_dictionary_match_ok[OF assms(1)])
  next
    case 3 then show ?thesis by (rule l33t_match_ok[OF assms(1)])
  next
    case 4 then show ?thesis by (rule spatial_match_ok)
  next
    case 5 then show ?thesis by (rule repeat_match_from_ok[OF r(1)])
  next
    case 6 then show ?thesis by (rule sequence_match_ok)
  next
    case 7 then show ?thesis by (rule regex_match_ok[OF assms(1)])
  next
    case 8 then show ?thesis by (rule date_match_ok[OF assms(1) r(2)])
  qed
  with match_ok_length[of password m] show ?thesis by (simp add: match_ok_def)
qed

lemma omnimatch_1991:
  "omnimatch example_env ''1991'' []
     = Some [Match 0 3 ''1991'' (RegexMatch RECENT_YEAR [''1991'']),
             Match 0 3 ''1991'' (DateMatch [] 2001 9 19 False),
             Match 1 2 ''99'' (RepeatMatch ''9'' 0 [] 2)]"
  by code_simp

theorem omnimatch_matches_in_password_witness:
  "sort_contract (std_sort example_env)
   \<and> omnimatch example_env ''1991'' []
       = Some [Match 0 3 ''1991'' (RegexMatch RECENT_YEAR [''1991'']),
               Match 0 3 ''1991'' (DateMatch [] 2001 9 19 False),
               Match 1 2 ''99'' (RepeatMatch ''9'' 0 [] 2)]
   \<and> ''99'' = substr ''1991'' 1 (2 - 1 + 1)"
proof -
  have "match_token (Match 1 2 ''99'' (RepeatMatch ''9'' (0 :: nat) [] 2))
          = substr ''1991'' (match_i (Match 1 2 ''99'' (RepeatMatch ''9'' (0 :: nat) [] 2)))
              (match_j (Match 1 2 ''99'' (RepeatMatch ''9'' (0 :: nat) [] 2))
               - match_i (Match 1 2 ''99'' (RepeatMatch ''9'' (0 :: nat) [] 2)) + 1)"
    using omnimatch_matches_in_password [OF example_env_contract omnimatch_1991,
        of "Match 1 2 ''99'' (RepeatMatch ''9'' 0 [] 2)"]
    by simp
  then have "''99'' = substr ''1991'' 1 (2 - 1 + 1)" by simp
  with omnimatch_1991 example_env_contract show ?thesis by blast
qed

lemma tie_reversing_contract: "sort_contract tie_reversing_sort"
proof -
  have "sorted_wrt (\<lambda>a b. \<not> match_less b a) (sort_key match_key (rev ms))" for ms :: "'a Match list"
    using sorted_sort_key[of match_key "rev ms"]
    unfolding not_match_less sorted_map by simp
  then show ?thesis
    unfolding sort_contract_def tie_reversing_sort_def by simp
qed

text \<open>
  C2 (as amended). What \<open>omnimatch\<close> returns is a permutation of the concatenation of
  the results of the eight matchers, ascending in the pair \<open>(i, j)\<close>. The order of
  matches with the same pair is whatever \<open>std::sort\<close> leaves: the contract of the sort
  does not fix it.
\<close>

theorem omnimatch_sorted_concatenation:
  assumes "sort_contract (std_sort e)" "omnimatch e password ordered_list = Some ms"
  shows "\<exists>repeats dates. repeat_match_from e password 0 = Some repeats
           \<and> date_match e password = Some dates
           \<and> mset ms = mset (matchers_output e password ordered_list repeats dates)
           \<and> sorted (map match_key ms)
           \<and> sorted_wrt (\<lambda>a b. \<not> match_less b a) ms"
proof -
  from omnimatch_Some[OF assms(2)] obtain repeats dates where
    r: "repeat_match_from e password 0 = Some repeats" "date_match e password = Some dates"
       "ms = sorted_matches e (matchers_output e password ordered_list repeats dates)" by blast
  from assms(1) have c: "mset ms = mset (matchers_output e password ordered_list repeats dates)"
    "sorted_wrt (\<lambda>a b. \<not> match_less b a) ms"
    unfolding r(3) sorted_matches_def sort_contract_def by auto
  from c(2) have "sorted (map match_key ms)"
    unfolding not_match_less sorted_map .
  with r(1,2) c show ?thesis by blast
qed

theorem omnimatch_sorted_concatenation_witness:
  "sort_contract (std_sort example_env)
   \<and> omnimatch example_env ''1991'' []
       = Some [Match 0 3 ''1991'' (RegexMatch RECENT_YEAR [''1991'']),
               Match 0 3 ''1991'' (DateMatch [] 2001 9 19 False),
               Match 1 2 ''99'' (RepeatMatch ''9'' 0 [] 2)]
   \<and> sorted (map match_key [Match 0 3 ''1991'' (RegexMatch RECENT_YEAR [''1991'']),
               Match 0 3 ''1991'' (DateMatch [] 2001 9 19 False),
               Match 1 2 ''99'' (RepeatMatch ''9'' (0 :: nat) [] 2)])"
  using omnimatch_sorted_concatenation [OF example_env_contract omnimatch_1991]
    omnimatch_1991 example_env_contract
  by blast

lemma omnimatch_of_parts:
  assumes "repeat_match_from e password 0 = Some repeats" "date_match e password = Some dates"
  shows "omnimatch e password ordered_list
           = Some (sorted_matches e (matchers_output e password ordered_list repeats dates))"
  using assms unfolding omnimatch.simps[of e password ordered_list] matchers_output_def Let_def
  by simp

lemma reference_year_reversing: "REFERENCE_YEAR reversing_env = 2000"
  by (simp add: reversing_env_def example_env_def)

lemma spans_13a:
  "date_spans 13 4 8 = [(0,3),(0,4),(0,5),(0,6),(0,7),(1,4),(1,5),(1,6),(1,7),(1,8),(2,5),(2,6),
     (2,7),(2,8),(2,9),(3,6),(3,7),(3,8),(3,9),(3,10),(4,7),(4,8),(4,9),(4,10),(4,11),(5,8),(5,9),
     (5,10),(5,11),(5,12),(6,9),(6,10),(6,11),(6,12),(7,10),(7,11),(7,12),(8,11),(8,12),(9,12)]"
  by code_simp

lemma spans_13b:
  "date_spans 13 6 10 = [(0,5),(0,6),(0,7),(0,8),(0,9),(1,6),(1,7),(1,8),(1,9),(1,10),(2,7),(2,8),
     (2,9),(2,10),(2,11),(3,8),(3,9),(3,10),(3,11),(3,12),(4,9),(4,10),(4,11),(4,12),(5,10),(5,11),
     (5,12),(6,11),(6,12),(7,12)]"
  by code_simp

lemma without_13:
  "collect (map (date_no_separator_at reversing_env ''2112212121212'') (date_spans 13 4 8))
     = Some
    [Match 0 3 ''2112'' (DateMatch [] 2002 1 21 False),
     Match 0 4 ''21122'' (DateMatch [] 2022 11 2 False),
     Match 0 5 ''211221'' (DateMatch [] 2021 12 21 False),
     Match 1 4 ''1122'' (DateMatch [] 2002 2 11 False),
     Match 1 5 ''11221'' (DateMatch [] 2021 12 1 False),
     Match 1 6 ''112212'' (DateMatch [] 2012 11 22 False),
     Match 1 7 ''1122121'' (DateMatch [] 1122 1 21 False),
     Match 1 8 ''11221212'' (DateMatch [] 1212 11 22 False),
     Match 2 5 ''1221'' (DateMatch [] 2001 2 12 False),
     Match 2 6 ''12212'' (DateMatch [] 2012 1 22 False),
     Match 2 7 ''122121'' (DateMatch [] 2021 12 21 False),
     Match 2 8 ''1221212'' (DateMatch [] 1221 12 2 False),
     Match 3 6 ''2212'' (DateMatch [] 2002 1 22 False),
     Match 3 7 ''22121'' (DateMatch [] 2021 2 21 False),
     Match 3 8 ''221212'' (DateMatch [] 2012 12 22 False),
     Match 3 10 ''22121212'' (DateMatch [] 1212 12 22 False),
     Match 4 7 ''2121'' (DateMatch [] 2001 2 21 False),
     Match 4 8 ''21212'' (DateMatch [] 2012 12 2 False),
     Match 4 10 ''2121212'' (DateMatch [] 1212 12 2 False),
     Match 5 8 ''1212'' (DateMatch [] 2002 1 12 False),
     Match 5 9 ''12121'' (DateMatch [] 2021 1 21 False),
     Match 5 10 ''121212'' (DateMatch [] 2012 12 12 False),
     Match 5 11 ''1212121'' (DateMatch [] 1212 1 21 False),
     Match 5 12 ''12121212'' (DateMatch [] 1212 12 12 False),
     Match 6 9 ''2121'' (DateMatch [] 2001 2 21 False),
     Match 6 10 ''21212'' (DateMatch [] 2012 12 2 False),
     Match 6 12 ''2121212'' (DateMatch [] 1212 12 2 False),
     Match 7 10 ''1212'' (DateMatch [] 2002 1 12 False),
     Match 7 11 ''12121'' (DateMatch [] 2021 1 21 False),
     Match 7 12 ''121212'' (DateMatch [] 2012 12 12 False),
     Match 8 11 ''2121'' (DateMatch [] 2001 2 21 False),
     Match 8 12 ''21212'' (DateMatch [] 2012 12 2 False),
     Match 9 12 ''1212'' (DateMatch [] 2002 1 12 False)]"
  unfolding spans_13a
  by (simp add: collect_def date_no_separator_at_def substr_def maybe_date_no_separator_def
      is_digit_def reference_year_reversing best_candidate_def min_element_def metric_def
      date_candidates_def DATE_SPLITS_def split_dmy_def stou_def digit_val_def
      map_ints_to_dmy_def map_ints_to_dm_def DATE_MIN_YEAR_def DATE_MAX_YEAR_def
      two_to_four_digit_year_def)

lemma with_13:
  "collect (map (date_with_separator_at ''2112212121212'') (date_spans 13 6 10))
     = Some ([] :: nat Match list)"
  unfolding spans_13b
  by (simp add: collect_def date_with_separator_at_def substr_def maybe_date_with_separator_def
      is_digit_def is_separator_def)

lemma erase_13:
  "erase_strict_substrings
    ([Match 0 3 ''2112'' (DateMatch [] 2002 1 21 False),
     Match 0 4 ''21122'' (DateMatch [] 2022 11 2 False),
     Match 0 5 ''211221'' (DateMatch [] 2021 12 21 False),
     Match 1 4 ''1122'' (DateMatch [] 2002 2 11 False),
     Match 1 5 ''11221'' (DateMatch [] 2021 12 1 False),
     Match 1 6 ''112212'' (DateMatch [] 2012 11 22 False),
     Match 1 7 ''1122121'' (DateMatch [] 1122 1 21 False),
     Match 1 8 ''11221212'' (DateMatch [] 1212 11 22 False),
     Match 2 5 ''1221'' (DateMatch [] 2001 2 12 False),
     Match 2 6 ''12212'' (DateMatch [] 2012 1 22 False),
     Match 2 7 ''122121'' (DateMatch [] 2021 12 21 False),
     Match 2 8 ''1221212'' (DateMatch [] 1221 12 2 False),
     Match 3 6 ''2212'' (DateMatch [] 2002 1 22 False),
     Match 3 7 ''22121'' (DateMatch [] 2021 2 21 False),
     Match 3 8 ''221212'' (DateMatch [] 2012 12 22 False),
     Match 3 10 ''22121212'' (DateMatch [] 1212 12 22 False),
     Match 4 7 ''2121'' (DateMatch [] 2001 2 21 False),
     Match 4 8 ''21212'' (DateMatch [] 2012 12 2 False),
     Match 4 10 ''2121212'' (DateMatch [] 1212 12 2 False),
     Match 5 8 ''1212'' (DateMatch [] 2002 1 12 False),
     Match 5 9 ''12121'' (DateMatch [] 2021 1 21 False),
     Match 5 10 ''121212'' (DateMatch [] 2012 12 12 False),
     Match 5 11 ''1212121'' (DateMatch [] 1212 1 21 False),
     Match 5 12 ''12121212'' (DateMatch [] 1212 12 12 False),
     Match 6 9 ''2121'' (DateMatch [] 2001 2 21 False),
     Match 6 10 ''21212'' (DateMatch [] 2012 12 2 False),
     Match 6 12 ''2121212'' (DateMatch [] 1212 12 2 False),
     Match 7 10 ''1212'' (DateMatch [] 2002 1 12 False),
     Match 7 11 ''12121'' (DateMatch [] 2021 1 21 False),
     Match 7 12 ''121212'' (DateMatch [] 2012 12 12 False),
     Match 8 11 ''2121'' (DateMatch [] 2001 2 21 False),
     Match 8 12 ''21212'' (DateMatch [] 2012 12 2 False),
     Match 9 12 ''1212'' (DateMatch [] 2002 1 12 False)] :: nat Match list)
     = [Match 0 5 ''211221'' (DateMatch [] 2021 12 21 False),
      Match 1 8 ''11221212'' (DateMatch [] 1212 11 22 False),
      Match 3 10 ''22121212'' (DateMatch [] 1212 12 22 False),
      Match 5 12 ''12121212'' (DateMatch [] 1212 12 12 False)]"
  unfolding erase_filter
  by (simp add: is_strict_substring_def)

lemma sort_dates_13:
  "tie_reversing_sort
     ([Match 0 5 ''211221'' (DateMatch [] 2021 12 21 False),
      Match 1 8 ''11221212'' (DateMatch [] 1212 11 22 False),
      Match 3 10 ''22121212'' (DateMatch [] 1212 12 22 False),
      Match 5 12 ''12121212'' (DateMatch [] 1212 12 12 False)] :: nat Match list)
     = [Match 0 5 ''211221'' (DateMatch [] 2021 12 21 False),
      Match 1 8 ''11221212'' (DateMatch [] 1212 11 22 False),
      Match 3 10 ''22121212'' (DateMatch [] 1212 12 22 False),
      Match 5 12 ''12121212'' (DateMatch [] 1212 12 12 False)]"
  by code_simp

lemma date_match_13:
  "date_match reversing_env ''2112212121212''
     = Some
     [Match 0 5 ''211221'' (DateMatch [] 2021 12 21 False),
      Match 1 8 ''11221212'' (DateMatch [] 1212 11 22 False),
      Match 3 10 ''22121212'' (DateMatch [] 1212 12 22 False),
      Match 5 12 ''12121212'' (DateMatch [] 1212 12 12 False)]"
proof -
  have l13: "length ''2112212121212'' = 13" by simp
  have s: "std_sort reversing_env = tie_reversing_sort"
    by (simp add: reversing_env_def)
  show ?thesis
    unfolding date_match_def l13 without_13 with_13
    by (simp add: erase_13 sorted_matches_def s sort_dates_13 del: One_nat_def)
qed

lemma repeat_13:
  "repeat_match_from reversing_env ''2112212121212'' 0
     = Some
     [Match 1 2 ''11'' (RepeatMatch ''1'' 0 [] 2),
      Match 3 4 ''22'' (RepeatMatch ''2'' 0 [] 2),
      Match 5 12 ''12121212''
        (RepeatMatch ''12'' 0 [Match 0 1 ''12'' (SequenceMatch DIGITS 10 True)] 4)]"
  by code_simp

lemma output_13:
  "matchers_output reversing_env ''2112212121212'' []
     [Match 1 2 ''11'' (RepeatMatch ''1'' 0 [] 2),
      Match 3 4 ''22'' (RepeatMatch ''2'' 0 [] 2),
      Match 5 12 ''12121212''
        (RepeatMatch ''12'' 0 [Match 0 1 ''12'' (SequenceMatch DIGITS 10 True)] 4)]
     [Match 0 5 ''211221'' (DateMatch [] 2021 12 21 False),
      Match 1 8 ''11221212'' (DateMatch [] 1212 11 22 False),
      Match 3 10 ''22121212'' (DateMatch [] 1212 12 22 False),
      Match 5 12 ''12121212'' (DateMatch [] 1212 12 12 False)]
   = [Match 1 2 ''11'' (RepeatMatch ''1'' 0 [] 2),
      Match 3 4 ''22'' (RepeatMatch ''2'' 0 [] 2),
      Match 5 12 ''12121212''
        (RepeatMatch ''12'' 0 [Match 0 1 ''12'' (SequenceMatch DIGITS 10 True)] 4),
      Match 0 1 ''21'' (SequenceMatch DIGITS 10 False),
      Match 2 3 ''12'' (SequenceMatch DIGITS 10 True),
      Match 4 5 ''21'' (SequenceMatch DIGITS 10 False),
      Match 5 6 ''12'' (SequenceMatch DIGITS 10 True),
      Match 6 7 ''21'' (SequenceMatch DIGITS 10 False),
      Match 7 8 ''12'' (SequenceMatch DIGITS 10 True),
      Match 8 9 ''21'' (SequenceMatch DIGITS 10 False),
      Match 9 10 ''12'' (SequenceMatch DIGITS 10 True),
      Match 10 11 ''21'' (SequenceMatch DIGITS 10 False),
      Match 11 12 ''12'' (SequenceMatch DIGITS 10 True),
      Match 0 5 ''211221'' (DateMatch [] 2021 12 21 False),
      Match 1 8 ''11221212'' (DateMatch [] 1212 11 22 False),
      Match 3 10 ''22121212'' (DateMatch [] 1212 12 22 False),
      Match 5 12 ''12121212'' (DateMatch [] 1212 12 12 False)]"
  by code_simp

lemma sort_13:
  "tie_reversing_sort
     ([Match 1 2 ''11'' (RepeatMatch ''1'' 0 [] 2),
      Match 3 4 ''22'' (RepeatMatch ''2'' 0 [] 2),
      Match 5 12 ''12121212''
        (RepeatMatch ''12'' 0 [Match 0 1 ''12'' (SequenceMatch DIGITS 10 True)] 4),
      Match 0 1 ''21'' (SequenceMatch DIGITS 10 False),
      Match 2 3 ''12'' (SequenceMatch DIGITS 10 True),
      Match 4 5 ''21'' (SequenceMatch DIGITS 10 False),
      Match 5 6 ''12'' (SequenceMatch DIGITS 10 True),
      Match 6 7 ''21'' (SequenceMatch DIGITS 10 False),
      Match 7 8 ''12'' (SequenceMatch DIGITS 10 True),
      Match 8 9 ''21'' (SequenceMatch DIGITS 10 False),
      Match 9 10 ''12'' (SequenceMatch DIGITS 10 True),
      Match 10 11 ''21'' (SequenceMatch DIGITS 10 False),
      Match 11 12 ''12'' (SequenceMatch DIGITS 10 True),
      Match 0 5 ''211221'' (DateMatch [] 2021 12 21 False),
      Match 1 8 ''11221212'' (DateMatch [] 1212 11 22 False),
      Match 3 10 ''22121212'' (DateMatch [] 1212 12 22 False),
      Match 5 12 ''12121212'' (DateMatch [] 1212 12 12 False)] :: nat Match list)
   = [Match 0 1 ''21'' (SequenceMatch DIGITS 10 False),
      Match 0 5 ''211221'' (DateMatch [] 2021 12 21 False),
      Match 1 2 ''11'' (RepeatMatch ''1'' 0 [] 2),
      Match 1 8 ''11221212'' (DateMatch [] 1212 11 22 False),
      Match 2 3 ''12'' (SequenceMatch DIGITS 10 True),
      Match 3 4 ''22'' (RepeatMatch ''2'' 0 [] 2),
      Match 3 10 ''22121212'' (DateMatch [] 1212 12 22 False),
      Match 4 5 ''21'' (SequenceMatch DIGITS 10 False),
      Match 5 6 ''12'' (SequenceMatch DIGITS 10 True),
      Match 5 12 ''12121212'' (DateMatch [] 1212 12 12 False),
      Match 5 12 ''12121212''
        (RepeatMatch ''12'' 0 [Match 0 1 ''12'' (SequenceMatch DIGITS 10 True)] 4),
      Match 6 7 ''21'' (SequenceMatch DIGITS 10 False),
      Match 7 8 ''12'' (SequenceMatch DIGITS 10 True),
      Match 8 9 ''21'' (SequenceMatch DIGITS 10 False),
      Match 9 10 ''12'' (SequenceMatch DIGITS 10 True),
      Match 10 11 ''21'' (SequenceMatch DIGITS 10 False),
      Match 11 12 ''12'' (SequenceMatch DIGITS 10 True)]"
  by code_simp

text \<open>
  The password 2112212121212 has a repeat match and a date match over the range (5, 12).
  The repeat matcher runs before the date matcher; under a sort that meets the contract
  and reverses ties, the date match comes first in what \<open>omnimatch\<close> returns.
\<close>

theorem omnimatch_sorted_concatenation_counterexample:
  "sort_contract (std_sort reversing_env)
   \<and> repeat_match_from reversing_env ''2112212121212'' 0
       = Some
     [Match 1 2 ''11'' (RepeatMatch ''1'' 0 [] 2),
      Match 3 4 ''22'' (RepeatMatch ''2'' 0 [] 2),
      Match 5 12 ''12121212''
        (RepeatMatch ''12'' 0 [Match 0 1 ''12'' (SequenceMatch DIGITS 10 True)] 4)]
   \<and> date_match reversing_env ''2112212121212''
       = Some
     [Match 0 5 ''211221'' (DateMatch [] 2021 12 21 False),
      Match 1 8 ''11221212'' (DateMatch [] 1212 11 22 False),
      Match 3 10 ''22121212'' (DateMatch [] 1212 12 22 False),
      Match 5 12 ''12121212'' (DateMatch [] 1212 12 12 False)]
   \<and> matchers_output reversing_env ''2112212121212'' []
     [Match 1 2 ''11'' (RepeatMatch ''1'' 0 [] 2),
      Match 3 4 ''22'' (RepeatMatch ''2'' 0 [] 2),
      Match 5 12 ''12121212''
        (RepeatMatch ''12'' 0 [Match 0 1 ''12'' (SequenceMatch DIGITS 10 True)] 4)]
     [Match 0 5 ''211221'' (DateMatch [] 2021 12 21 False),
      Match 1 8 ''11221212'' (DateMatch [] 1212 11 22 False),
      Match 3 10 ''22121212'' (DateMatch [] 1212 12 22 False),
      Match 5 12 ''12121212'' (DateMatch [] 1212 12 12 False)]
     = [Match 1 2 ''11'' (RepeatMatch ''1'' 0 [] 2),
      Match 3 4 ''22'' (RepeatMatch ''2'' 0 [] 2),
      Match 5 12 ''12121212''
        (RepeatMatch ''12'' 0 [Match 0 1 ''12'' (SequenceMatch DIGITS 10 True)] 4),
      Match 0 1 ''21'' (SequenceMatch DIGITS 10 False),
      Match 2 3 ''12'' (SequenceMatch DIGITS 10 True),
      Match 4 5 ''21'' (SequenceMatch DIGITS 10 False),
      Match 5 6 ''12'' (SequenceMatch DIGITS 10 True),
      Match 6 7 ''21'' (SequenceMatch DIGITS 10 False),
      Match 7 8 ''12'' (SequenceMatch DIGITS 10 True),
      Match 8 9 ''21'' (SequenceMatch DIGITS 10 False),
      Match 9 10 ''12'' (SequenceMatch DIGITS 10 True),
      Match 10 11 ''21'' (SequenceMatch DIGITS 10 False),
      Match 11 12 ''12'' (SequenceMatch DIGITS 10 True),
      Match 0 5 ''211221'' (DateMatch [] 2021 12 21 False),
      Match 1 8 ''11221212'' (DateMatch [] 1212 11 22 False),
      Match 3 10 ''22121212'' (DateMatch [] 1212 12 22 False),
      Match 5 12 ''12121212'' (DateMatch [] 1212 12 12 False)]
   \<and> omnimatch reversing_env ''2112212121212'' []
       = Some
     [Match 0 1 ''21'' (SequenceMatch DIGITS 10 False),
      Match 0 5 ''211221'' (DateMatch [] 2021 12 21 False),
      Match 1 2 ''11'' (RepeatMatch ''1'' 0 [] 2),
      Match 1 8 ''11221212'' (DateMatch [] 1212 11 22 False),
      Match 2 3 ''12'' (SequenceMatch DIGITS 10 True),
      Match 3 4 ''22'' (RepeatMatch ''2'' 0 [] 2),
      Match 3 10 ''22121212'' (DateMatch [] 1212 12 22 False),
      Match 4 5 ''21'' (SequenceMatch DIGITS 10 False),
      Match 5 6 ''12'' (SequenceMatch DIGITS 10 True),
      Match 5 12 ''12121212'' (DateMatch [] 1212 12 12 False),
      Match 5 12 ''12121212''
        (RepeatMatch ''12'' 0 [Match 0 1 ''12'' (SequenceMatch DIGITS 10 True)] 4),
      Match 6 7 ''21'' (SequenceMatch DIGITS 10 False),
      Match 7 8 ''12'' (SequenceMatch DIGITS 10 True),
      Match 8 9 ''21'' (SequenceMatch DIGITS 10 False),
      Match 9 10 ''12'' (SequenceMatch DIGITS 10 True),
      Match 10 11 ''21'' (SequenceMatch DIGITS 10 False),
      Match 11 12 ''12'' (SequenceMatch DIGITS 10 True)]"
proof -
  have c: "sort_contract (std_sort reversing_env)"
    by (simp add: reversing_env_def tie_reversing_contract)
  have s: "std_sort reversing_env = tie_reversing_sort"
    by (simp add: reversing_env_def)
  have "omnimatch reversing_env ''2112212121212'' []
       = Some
     [Match 0 1 ''21'' (SequenceMatch DIGITS 10 False),
      Match 0 5 ''211221'' (DateMatch [] 2021 12 21 False),
      Match 1 2 ''11'' (RepeatMatch ''1'' 0 [] 2),
      Match 1 8 ''11221212'' (DateMatch [] 1212 11 22 False),
      Match 2 3 ''12'' (SequenceMatch DIGITS 10 True),
      Match 3 4 ''22'' (RepeatMatch ''2'' 0 [] 2),
      Match 3 10 ''22121212'' (DateMatch [] 1212 12 22 False),
      Match 4 5 ''21'' (SequenceMatch DIGITS 10 False),
      Match 5 6 ''12'' (SequenceMatch DIGITS 10 True),
      Match 5 12 ''12121212'' (DateMatch [] 1212 12 12 False),
      Match 5 12 ''12121212''
        (RepeatMatch ''12'' 0 [Match 0 1 ''12'' (SequenceMatch DIGITS 10 True)] 4),
      Match 6 7 ''21'' (SequenceMatch DIGITS 10 False),
      Match 7 8 ''12'' (SequenceMatch DIGITS 10 True),
      Match 8 9 ''21'' (SequenceMatch DIGITS 10 False),
      Match 9 10 ''12'' (SequenceMatch DIGITS 10 True),
      Match 10 11 ''21'' (SequenceMatch DIGITS 10 False),
      Match 11 12 ''12'' (SequenceMatch DIGITS 10 True)]"
    unfolding omnimatch_of_parts[OF repeat_13 date_match_13] output_13 sorted_matches_def s sort_13
    by (rule refl)
  with c repeat_13 date_match_13 output_13 show ?thesis by blast
qed

section \<open>Totality\<close>

















end
